theory Spec2Isabelle
  imports Main "HOL-Library.Sublist" "HOL-Library.Multiset"
begin

section \<open>The news crawler of scrape\_sina\_news.py\<close>

text \<open>
  A shallow embedding of \<^verbatim>\<open>src/scrape_sina_news.py\<close>: the class
  \<^verbatim>\<open>SinaNewsCrawler\<close> (\<^verbatim>\<open>process_news_item\<close>, \<^verbatim>\<open>scrape_page\<close>,
  \<^verbatim>\<open>run\<close>, \<^verbatim>\<open>save_results\<close>) and \<^verbatim>\<open>main\<close>.

  Conventions of the model.
  \<^item> A Python \<^verbatim>\<open>str\<close> is a \<^typ>\<open>string\<close>; one \<^typ>\<open>char\<close> stands for one
    character, so the model covers the code points below 256. The output file is opened
    as text, and its content is the sequence of its characters; a line break is written
    as the one character 0x0A. Where the source counts bytes (the seek of line 156), the
    model counts characters: the two agree on the ASCII characters that end every file
    \<^verbatim>\<open>save_results\<close> has written.
  \<^item> The browser (Playwright) is the environment: every awaited call of the source is a
    field of a record that tells what the call returns or which exception it raises.
  \<^item> What the program prints is part of the state (\<open>stdout\<close>), one constructor of
    \<open>msg\<close> for each \<^verbatim>\<open>print\<close> of the source.
  \<^item> The file system is one optional file content (\<open>disk\<close>): the file that
    \<^verbatim>\<open>self.filename\<close> names, \<open>None\<close> while that file does not exist.
\<close>

subsection \<open>Python strings\<close>

text \<open>\<^verbatim>\<open>sub in text\<close> on two strings: \<open>sub\<close> occurs in \<open>text\<close> as a contiguous run.\<close>

fun py_in :: "string \<Rightarrow> string \<Rightarrow> bool" where
  "py_in sub [] = (sub = [])"
| "py_in sub (c # cs) = (prefix sub (c # cs) \<or> py_in sub cs)"

text \<open>
  \<^verbatim>\<open>str.isspace\<close> for one character, on the code points below 256: the ASCII
  white space 0x09 to 0x0D, the separators 0x1C to 0x1F, the space, and 0x85 and 0xA0.
\<close>

definition is_space :: "char \<Rightarrow> bool" where
  "is_space c =
     (let n = (of_char c :: nat)
      in (9 \<le> n \<and> n \<le> 13) \<or> (28 \<le> n \<and> n \<le> 32) \<or> n = 133 \<or> n = 160)"

text \<open>\<^verbatim>\<open>s.strip()\<close>: white space removed at both ends.\<close>

definition strip :: "string \<Rightarrow> string" where
  "strip s = rev (dropWhile is_space (rev (dropWhile is_space s)))"

text \<open>
  \<^verbatim>\<open>text.replace(old, new)\<close> for a non-empty \<open>old\<close>: every occurrence of
  \<open>old\<close>, from the left and without overlap, becomes \<open>new\<close>.
\<close>

fun py_replace :: "string \<Rightarrow> string \<Rightarrow> string \<Rightarrow> string" where
  "py_replace old new [] = []"
| "py_replace old new (c # cs) =
     (if old \<noteq> [] \<and> prefix old (c # cs)
      then new @ py_replace old new (drop (length old) (c # cs))
      else c # py_replace old new cs)"

subsection \<open>Data model\<close>

text \<open>The dictionary that \<^verbatim>\<open>process_news_item\<close> appends to \<^verbatim>\<open>self.results\<close>.\<close>

record news =
  title :: string
  summary :: string
  url :: string
  page :: int

text \<open>
  Exceptions: Playwright's timeout, any other subclass of \<^verbatim>\<open>Exception\<close> raised by
  the browser, and the \<^verbatim>\<open>ValueError\<close> of a seek to a negative position.
\<close>

datatype py_error = PlaywrightTimeoutError | OtherException | ValueError

datatype 'a awaited = Returns 'a | Raises py_error

text \<open>
  The element found by \<^verbatim>\<open>item.query_selector('a')\<close>, as the answers to the two calls
  made on it: \<^verbatim>\<open>text_content()\<close> and \<^verbatim>\<open>get_attribute('href')\<close>
  (\<open>None\<close> is Python's \<^verbatim>\<open>None\<close>).
\<close>

record anchor_elem =
  a_text_content :: "string option awaited"
  a_href :: "string option awaited"

text \<open>
  One \<^verbatim>\<open>.news-list li\<close> element: the answer to \<^verbatim>\<open>query_selector('a')\<close>, and
  the answer to \<^verbatim>\<open>query_selector('p')\<close>, where the paragraph found is given by
  the answer to its \<^verbatim>\<open>text_content()\<close>.
\<close>

record news_item =
  query_a :: "anchor_elem option awaited"
  query_p :: "string option awaited option awaited"

text \<open>The lines the program prints, in the order of the source.\<close>

datatype msg =
    MatchedNews string      \<comment> \<open>line 51: a record was appended, with its title\<close>
  | ItemError py_error      \<comment> \<open>line 54: processing one item raised\<close>
  | PageFound int nat       \<comment> \<open>line 64: page number and number of items found\<close>
  | PageTimeout int         \<comment> \<open>line 72: the page timed out\<close>
  | PageError int py_error  \<comment> \<open>line 75: the page raised another exception\<close>
  | PageStart int           \<comment> \<open>line 100: the loop starts on a page\<close>
  | Saving nat              \<comment> \<open>line 107: about to save that many results\<close>
  | NoMatchOnPage int       \<comment> \<open>line 110: nothing to save after this page\<close>
  | NoNextButton            \<comment> \<open>line 121\<close>
  | NextTimeout             \<comment> \<open>line 124\<close>
  | NextFailed py_error     \<comment> \<open>line 127\<close>
  | NoResults               \<comment> \<open>line 137: \<^verbatim>\<open>save_results\<close> had nothing to save\<close>
  | Saved bool              \<comment> \<open>line 164, with the flag \<^verbatim>\<open>incremental\<close>\<close>

text \<open>
  The crawler object (\<open>keywords\<close>, \<open>max_pages\<close>, \<open>results\<close>, and
  \<open>has_filename\<close> for \<^verbatim>\<open>hasattr(self, 'filename')\<close>) together with the world it
  acts on: the output file and the standard output.
\<close>

record crawler =
  "keywords" :: "string list"
  max_pages :: int
  results :: "news list"
  has_filename :: bool
  disk :: "string option"
  stdout :: "msg list"

text \<open>A call either returns, or raises; both leave a state behind.\<close>

datatype outcome = Done crawler | Raised py_error crawler

subsection \<open>\<^verbatim>\<open>process_news_item\<close>\<close>

text \<open>
  The keyword test of line 41, which makes the item return early:
  \<^verbatim>\<open>self.keywords and not any(kw in title or kw in summary for kw in self.keywords)\<close>.
\<close>

definition filtered_out :: "string list \<Rightarrow> string \<Rightarrow> string \<Rightarrow> bool" where
  "filtered_out kws ttl smry =
     (kws \<noteq> [] \<and> \<not> list_ex (\<lambda>kw. py_in kw ttl \<or> py_in kw smry) kws)"

text \<open>\<^verbatim>\<open>x.strip() if x else ""\<close> on an optional string.\<close>

definition strip_or_empty :: "string option \<Rightarrow> string" where
  "strip_or_empty x = (case x of None \<Rightarrow> [] | Some s \<Rightarrow> if s = [] then [] else strip s)"

text \<open>
  The body of the \<^verbatim>\<open>try\<close> of \<^verbatim>\<open>process_news_item\<close> (lines 23 to 50): it raises,
  or returns early (\<open>Returns None\<close>), or reaches the append with a record.
\<close>

definition extract_item :: "string list \<Rightarrow> news_item \<Rightarrow> int \<Rightarrow> news option awaited" where
  "extract_item kws item page_num =
     (case query_a item of
        Raises e \<Rightarrow> Raises e
      | Returns None \<Rightarrow> Returns None
      | Returns (Some title_elem) \<Rightarrow>
          (case a_text_content title_elem of
             Raises e \<Rightarrow> Raises e
           | Returns t \<Rightarrow>
               (case query_p item of
                  Raises e \<Rightarrow> Raises e
                | Returns summary_elem \<Rightarrow>
                    (case (case summary_elem of None \<Rightarrow> Returns (Some []) | Some p \<Rightarrow> p) of
                       Raises e \<Rightarrow> Raises e
                     | Returns s \<Rightarrow>
                         (case a_href title_elem of
                            Raises e \<Rightarrow> Raises e
                          | Returns None \<Rightarrow> Returns None
                          | Returns (Some link) \<Rightarrow>
                              if link = [] then Returns None
                              else if filtered_out kws (strip_or_empty t) (strip_or_empty s)
                              then Returns None
                              else Returns (Some \<lparr>title = strip_or_empty t,
                                     summary = strip_or_empty s, url = link,
                                     page = page_num\<rparr>))))))"

text \<open>The whole method: the \<^verbatim>\<open>except Exception\<close> prints and swallows.\<close>

definition process_news_item :: "news_item \<Rightarrow> int \<Rightarrow> crawler \<Rightarrow> crawler" where
  "process_news_item item page_num c =
     (case extract_item (keywords c) item page_num of
        Raises e \<Rightarrow> c\<lparr>stdout := stdout c @ [ItemError e]\<rparr>
      | Returns None \<Rightarrow> c
      | Returns (Some r) \<Rightarrow>
          c\<lparr>results := results c @ [r], stdout := stdout c @ [MatchedNews (title r)]\<rparr>)"

subsection \<open>The browser\<close>

text \<open>
  The element found by \<^verbatim>\<open>page.query_selector('a.next')\<close>: the answer to its
  \<^verbatim>\<open>click()\<close> and to the \<^verbatim>\<open>wait_for_load_state\<close> that follows.
\<close>

record next_button =
  click :: "unit awaited"
  load_after_click :: "unit awaited"

text \<open>
  What the page answers while \<^verbatim>\<open>current_page\<close> has a given value:
  \<^verbatim>\<open>wait_for_selector('.news-list')\<close>, \<^verbatim>\<open>query_selector_all('.news-list li')\<close>
  and \<^verbatim>\<open>query_selector('a.next')\<close>; and \<open>finish_time\<close>, the time at which the
  browser has answered the last awaited call of the coroutine of the item at a position
  of the list (positions count from 0).
\<close>

record page_view =
  wait_news_list :: "unit awaited"
  query_news_items :: "news_item list awaited"
  query_next :: "next_button option awaited"
  finish_time :: "nat \<Rightarrow> nat"

text \<open>
  A browser session: the three awaited calls of lines 92 to 96, and the view of every
  page. Starting and closing the browser (lines 80 to 87 and 132) are taken to succeed.
\<close>

record browser =
  goto_start :: "unit awaited"
  wait_networkidle :: "unit awaited"
  wait_news_item :: "unit awaited"
  page_at :: "int \<Rightarrow> page_view"

definition say :: "msg \<Rightarrow> crawler \<Rightarrow> crawler" where
  "say m c = c\<lparr>stdout := stdout c @ [m]\<rparr>"

subsection \<open>\<^verbatim>\<open>scrape_page\<close>\<close>

text \<open>
  \<^verbatim>\<open>asyncio.gather\<close> (line 68) runs the coroutines of the items interleaved. A
  coroutine gives way only at its awaited calls, and all of them come before what it does
  to the crawler: the append and the print of lines 45 to 51, or the print of line 54,
  run in one piece. So the page has the effect of processing the items one after the
  other in the order in which their coroutines finish. That order is the browser's:
  the items sorted by their \<open>finish_time\<close>, items with the same time in the order of
  the list.
\<close>

definition gather_order :: "(nat \<Rightarrow> nat) \<Rightarrow> 'a list \<Rightarrow> 'a list" where
  "gather_order finish xs = map snd (sort_key (\<lambda>p. finish (fst p)) (enumerate 0 xs))"

definition page_failed :: "int \<Rightarrow> py_error \<Rightarrow> msg" where
  "page_failed page_num e =
     (if e = PlaywrightTimeoutError then PageTimeout page_num else PageError page_num e)"

definition scrape_page :: "page_view \<Rightarrow> int \<Rightarrow> crawler \<Rightarrow> bool \<times> crawler" where
  "scrape_page pg page_num c =
     (case wait_news_list pg of
        Raises e \<Rightarrow> (False, say (page_failed page_num e) c)
      | Returns _ \<Rightarrow>
          (case query_news_items pg of
             Raises e \<Rightarrow> (False, say (page_failed page_num e) c)
           | Returns news_items \<Rightarrow>
               (True, foldl (\<lambda>s item. process_news_item item page_num s)
                        (say (PageFound page_num (length news_items)) c)
                        (gather_order (finish_time pg) news_items))))"

subsection \<open>\<^verbatim>\<open>json.dump(self.results, f, ensure_ascii=False, indent=2)\<close>\<close>

text \<open>
  The encoder of Python's \<^verbatim>\<open>json\<close> module on the values the crawler gives it: a
  list of dictionaries with three strings and an integer each.
\<close>

definition hex_digit :: "nat \<Rightarrow> char" where
  "hex_digit d = (if d < 10 then char_of (48 + d) else char_of (87 + d))"

text \<open>
  With \<^verbatim>\<open>ensure_ascii=False\<close> the encoder escapes the backslash, the double quote
  and the control characters below 0x20, and copies every other character.
\<close>

definition escape_char :: "char \<Rightarrow> string" where
  "escape_char c =
     (if c = CHR 0x5C then [CHR 0x5C, CHR 0x5C]
      else if c = CHR 0x22 then [CHR 0x5C, CHR 0x22]
      else if c = CHR 0x08 then [CHR 0x5C, CHR ''b'']
      else if c = CHR 0x0C then [CHR 0x5C, CHR ''f'']
      else if c = CHR 0x0A then [CHR 0x5C, CHR ''n'']
      else if c = CHR 0x0D then [CHR 0x5C, CHR ''r'']
      else if c = CHR 0x09 then [CHR 0x5C, CHR ''t'']
      else if (of_char c :: nat) < 32
      then [CHR 0x5C, CHR ''u'', CHR ''0'', CHR ''0'',
            hex_digit ((of_char c :: nat) div 16), hex_digit ((of_char c :: nat) mod 16)]
      else [c])"

definition dump_str :: "string \<Rightarrow> string" where
  "dump_str s = CHR 0x22 # concat (map escape_char s) @ [CHR 0x22]"

fun digits :: "nat \<Rightarrow> string" where
  "digits n =
     (if n < 10 then [char_of (48 + n)] else digits (n div 10) @ [char_of (48 + n mod 10)])"

declare digits.simps [simp del]

definition dump_int :: "int \<Rightarrow> string" where
  "dump_int i = (if i < 0 then CHR ''-'' # digits (nat (- i)) else digits (nat i))"

text \<open>\<^verbatim>\<open>sep.join(xs)\<close>.\<close>

fun join :: "'a list \<Rightarrow> 'a list list \<Rightarrow> 'a list" where
  "join sep [] = []"
| "join sep [x] = x"
| "join sep (x # y # ys) = x @ sep @ join sep (y # ys)"

text \<open>One dictionary, as an element of the list: its keys are indented by four spaces.\<close>

definition dump_news :: "news \<Rightarrow> string" where
  "dump_news r =
     ''{'' @ ''\<newline>    '' @ dump_str ''title'' @ '': '' @ dump_str (title r) @
     '','' @ ''\<newline>    '' @ dump_str ''summary'' @ '': '' @ dump_str (summary r) @
     '','' @ ''\<newline>    '' @ dump_str ''url'' @ '': '' @ dump_str (url r) @
     '','' @ ''\<newline>    '' @ dump_str ''page'' @ '': '' @ dump_int (page r) @
     ''\<newline>  '' @ ''}''"

definition json_dump :: "news list \<Rightarrow> string" where
  "json_dump rs =
     (if rs = [] then ''[]''
      else ''['' @ ''\<newline>  '' @ join ('','' @ ''\<newline>  '') (map dump_news rs) @
           ''\<newline>'' @ '']'')"

subsection \<open>\<^verbatim>\<open>save_results\<close>\<close>

text \<open>
  Line 144 chooses the mode: \<^verbatim>\<open>'a'\<close> when \<^verbatim>\<open>incremental\<close> holds and the file
  exists, and \<^verbatim>\<open>'w'\<close> otherwise. Opening gives the content \<open>opened\<close>: empty in
  mode \<^verbatim>\<open>'w'\<close>, the file's own in mode \<^verbatim>\<open>'a'\<close>. The file exists from then on, so
  the test of line 147 is whether the mode is \<^verbatim>\<open>'w'\<close> or the file is empty.
  In the other branch the file loses its last two characters; the seek of line 156 raises
  when the file has fewer than two.
\<close>

definition save_results :: "bool \<Rightarrow> crawler \<Rightarrow> outcome" where
  "save_results incremental c =
     (if results c = [] then Done (say NoResults c)
      else
        let mode_w = (\<not> (incremental \<and> disk c \<noteq> None));
            opened = (if mode_w then [] else (case disk c of None \<Rightarrow> [] | Some d \<Rightarrow> d))
        in
          if mode_w \<or> length opened = 0
          then Done (say (Saved incremental)
                 (c\<lparr>has_filename := True,
                    disk := Some (opened @ ''[\<newline>'' @ json_dump (results c) @ ''\<newline>]''),
                    results := []\<rparr>))
          else if length opened < 2
          then Raised ValueError (c\<lparr>has_filename := True, disk := Some opened\<rparr>)
          else Done (say (Saved incremental)
                 (c\<lparr>has_filename := True,
                    disk := Some (take (length opened - 2) opened @
                                  '',\<newline>'' @ json_dump (results c) @ ''\<newline>]''),
                    results := []\<rparr>)))"

subsection \<open>\<^verbatim>\<open>run\<close>\<close>

text \<open>Lines 105 to 110: the incremental save after a page.\<close>

definition save_page :: "int \<Rightarrow> crawler \<Rightarrow> outcome" where
  "save_page current_page c =
     (if results c \<noteq> [] then save_results True (say (Saving (length (results c))) c)
      else Done (say (NoMatchOnPage current_page) c))"

text \<open>
  Lines 112 to 130: turning the page. The result is \<open>True\<close> when the loop goes on with
  \<^verbatim>\<open>current_page + 1\<close>, and \<open>False\<close> at each \<^verbatim>\<open>break\<close>.
\<close>

definition next_failed :: "py_error \<Rightarrow> msg" where
  "next_failed e = (if e = PlaywrightTimeoutError then NextTimeout else NextFailed e)"

definition turn_page :: "page_view \<Rightarrow> int \<Rightarrow> crawler \<Rightarrow> bool \<times> crawler" where
  "turn_page pg current_page c =
     (if current_page < max_pages c then
        (case query_next pg of
           Raises e \<Rightarrow> (False, say (next_failed e) c)
         | Returns None \<Rightarrow> (False, say NoNextButton c)
         | Returns (Some next_btn) \<Rightarrow>
             (case click next_btn of
                Raises e \<Rightarrow> (False, say (next_failed e) c)
              | Returns _ \<Rightarrow>
                  (case load_after_click next_btn of
                     Raises e \<Rightarrow> (False, say (next_failed e) c)
                   | Returns _ \<Rightarrow> (True, c))))
      else (False, c))"

text \<open>
  None of the three blocks of the loop body changes \<open>max_pages\<close>: the loop below
  terminates because \<^verbatim>\<open>current_page\<close> grows towards it.
\<close>

lemma max_pages_say [simp]: "max_pages (say m c) = max_pages c"
  by (simp add: say_def)

lemma max_pages_process_news_item [simp]:
  "max_pages (process_news_item item page_num c) = max_pages c"
  by (simp add: process_news_item_def split: awaited.splits option.splits)

lemma max_pages_foldl_process [simp]:
  "max_pages (foldl (\<lambda>s item. process_news_item item page_num s) c items) = max_pages c"
  by (induction items arbitrary: c) simp_all

lemma max_pages_scrape_page:
  "scrape_page pg page_num c = (ok, c') \<Longrightarrow> max_pages c' = max_pages c"
  by (auto simp: scrape_page_def split: awaited.splits)

lemma max_pages_save_results:
  "save_results incremental c = Done c' \<Longrightarrow> max_pages c' = max_pages c"
  by (auto simp: save_results_def Let_def split: if_splits)

lemma max_pages_save_page:
  "save_page current_page c = Done c' \<Longrightarrow> max_pages c' = max_pages c"
  by (auto simp: save_page_def dest: max_pages_save_results split: if_splits)

lemma max_pages_turn_page:
  "turn_page pg current_page c = (go_on, c') \<Longrightarrow> max_pages c' = max_pages c"
  by (auto simp: turn_page_def split: if_splits awaited.splits option.splits)

lemma turn_page_True_less:
  "turn_page pg current_page c = (True, c') \<Longrightarrow> current_page < max_pages c"
  by (auto simp: turn_page_def split: if_splits)

text \<open>The \<^verbatim>\<open>while\<close> loop of lines 98 to 130, from a value of \<^verbatim>\<open>current_page\<close>.\<close>

function crawl_loop :: "browser \<Rightarrow> int \<Rightarrow> crawler \<Rightarrow> outcome" where
  "crawl_loop b current_page c =
     (if current_page \<le> max_pages c then
        (case scrape_page (page_at b current_page) current_page
                (say (PageStart current_page) c) of
           (False, c1) \<Rightarrow> Done c1
         | (True, c1) \<Rightarrow>
             (case save_page current_page c1 of
                Raised e c2 \<Rightarrow> Raised e c2
              | Done c2 \<Rightarrow>
                  (case turn_page (page_at b current_page) current_page c2 of
                     (False, c3) \<Rightarrow> Done c3
                   | (True, c3) \<Rightarrow> crawl_loop b (current_page + 1) c3)))
      else Done c)"
  by pat_completeness auto
termination
proof (relation "measure (\<lambda>(b, current_page, c). nat (max_pages c + 1 - current_page))",
    goal_cases)
  case 1
  show ?case by simp
next
  case (2 b current_page c ok c1 c2 go_on c3)
  have "max_pages c1 = max_pages c"
    using 2 max_pages_scrape_page [OF sym, of ok c1] by auto
  moreover have "max_pages c2 = max_pages c1"
    using 2 max_pages_save_page by blast
  moreover have "max_pages c3 = max_pages c2"
    using 2 max_pages_turn_page [OF sym, of go_on c3] by auto
  ultimately show ?case
    using 2 by simp
qed

declare crawl_loop.simps [simp del]

text \<open>
  \<^verbatim>\<open>run\<close>: the start page is loaded (lines 92 to 96, outside any \<^verbatim>\<open>try\<close>), then
  the loop starts at page 1.
\<close>

definition run :: "browser \<Rightarrow> crawler \<Rightarrow> outcome" where
  "run b c =
     (case goto_start b of
        Raises e \<Rightarrow> Raised e c
      | Returns _ \<Rightarrow>
          (case wait_networkidle b of
             Raises e \<Rightarrow> Raised e c
           | Returns _ \<Rightarrow>
               (case wait_news_item b of
                  Raises e \<Rightarrow> Raised e c
                | Returns _ \<Rightarrow> crawl_loop b 1 c)))"

subsection \<open>\<^verbatim>\<open>main\<close>\<close>

text \<open>\<^verbatim>\<open>SinaNewsCrawler(keywords, max_pages)\<close>, in a world where the output file has
  the content \<open>d\<close> (\<open>None\<close>: there is no such file) and nothing is printed yet.\<close>

definition new_crawler :: "string list \<Rightarrow> int \<Rightarrow> string option \<Rightarrow> crawler" where
  "new_crawler kws n d =
     \<lparr>keywords = kws, max_pages = n, results = [], has_filename = False,
      disk = d, stdout = []\<rparr>"

text \<open>The clean-up of lines 181 to 186, on the content of the file.\<close>

definition finalize :: "string \<Rightarrow> string" where
  "finalize content = py_replace '',\<newline>]'' ''\<newline>]'' content"

text \<open>
  Lines 180 to 186: when the crawler has a file name, the file is read, cleaned and
  written back. The result is the exit status and the state; the \<^verbatim>\<open>open\<close> of
  line 182 raises on a missing file, and the process ends with status 1.
\<close>

definition clean_up :: "crawler \<Rightarrow> int \<times> crawler" where
  "clean_up c =
     (if has_filename c then
        (case disk c of
           None \<Rightarrow> (1, c)
         | Some content \<Rightarrow> (0, c\<lparr>disk := Some (finalize content)\<rparr>))
      else (0, c))"

text \<open>
  \<^verbatim>\<open>main\<close>, after the arguments are parsed: the exit status of the process and the
  final state. An exception that leaves \<^verbatim>\<open>run\<close> is not caught, and the process ends
  with status 1.
\<close>

definition main :: "browser \<Rightarrow> string list \<Rightarrow> int \<Rightarrow> string option \<Rightarrow> int \<times> crawler" where
  "main b kws n d =
     (case run b (new_crawler kws n d) of
        Raised e c \<Rightarrow> (1, c)
      | Done c \<Rightarrow> clean_up c)"

subsection \<open>Reading JSON\<close>

text \<open>
  The source writes the file and never reads it as JSON; the properties of the file are
  stated for a reader. These are the values of JSON (numbers are integers here) and a
  reader for JSON text, \<open>json_loads\<close>, after the grammar that \<^verbatim>\<open>json.loads\<close>
  follows. It accepts a text only if the text is JSON: white space between tokens,
  strings with their escapes and no raw control character, integers without leading
  zeros, arrays and objects with their separators, and nothing after the value. It
  refuses fractions, exponents and escapes of characters from 256 on.
\<close>

datatype json = JNull | JBool bool | JInt int | JStr string | JArr "json list"
  | JObj "(string \<times> json) list"

datatype token = TLBracket | TRBracket | TLBrace | TRBrace | TComma | TColon
  | TString string | TNumber int | TTrue | TFalse | TNull

text \<open>Strings: the value of a hexadecimal digit, and the escapes after a backslash.\<close>

definition hex_value :: "char \<Rightarrow> nat option" where
  "hex_value c =
     (let n = (of_char c :: nat)
      in if 48 \<le> n \<and> n \<le> 57 then Some (n - 48)
         else if 97 \<le> n \<and> n \<le> 102 then Some (n - 87)
         else if 65 \<le> n \<and> n \<le> 70 then Some (n - 55)
         else None)"

definition unescape :: "char \<Rightarrow> char option" where
  "unescape e =
     (if e = CHR 0x22 then Some (CHR 0x22)
      else if e = CHR 0x5C then Some (CHR 0x5C)
      else if e = CHR ''/'' then Some (CHR ''/'')
      else if e = CHR ''b'' then Some (CHR 0x08)
      else if e = CHR ''f'' then Some (CHR 0x0C)
      else if e = CHR ''n'' then Some (CHR 0x0A)
      else if e = CHR ''r'' then Some (CHR 0x0D)
      else if e = CHR ''t'' then Some (CHR 0x09)
      else None)"

definition hex4 :: "char \<Rightarrow> char \<Rightarrow> char \<Rightarrow> char \<Rightarrow> char option" where
  "hex4 h1 h2 h3 h4 =
     (case hex_value h1 of
        None \<Rightarrow> None
      | Some v1 \<Rightarrow>
          (case hex_value h2 of
             None \<Rightarrow> None
           | Some v2 \<Rightarrow>
               (case hex_value h3 of
                  None \<Rightarrow> None
                | Some v3 \<Rightarrow>
                    (case hex_value h4 of
                       None \<Rightarrow> None
                     | Some v4 \<Rightarrow>
                         if v1 = 0 \<and> v2 = 0 then Some (char_of (16 * v3 + v4)) else None))))"

text \<open>
  The rest of a string after its opening quote: the characters read so far are in
  \<open>acc\<close>, last first; the result is the string and the text after the closing quote.
\<close>

fun lex_string :: "string \<Rightarrow> string \<Rightarrow> (string \<times> string) option" where
  "lex_string acc [] = None"
| "lex_string acc (c # cs) =
     (if c = CHR 0x22 then Some (rev acc, cs)
      else if c = CHR 0x5C then
        (case cs of
           [] \<Rightarrow> None
         | e # es \<Rightarrow>
             if e = CHR ''u'' then
               (case es of
                  h1 # h2 # h3 # h4 # rest \<Rightarrow>
                    (case hex4 h1 h2 h3 h4 of
                       None \<Rightarrow> None
                     | Some x \<Rightarrow> lex_string (x # acc) rest)
                | _ \<Rightarrow> None)
             else (case unescape e of
                     None \<Rightarrow> None
                   | Some x \<Rightarrow> lex_string (x # acc) es))
      else if (of_char c :: nat) < 32 then None
      else lex_string (c # acc) cs)"

text \<open>Numbers: an optional minus sign and decimal digits.\<close>

definition is_digit :: "char \<Rightarrow> bool" where
  "is_digit c = (let n = (of_char c :: nat) in 48 \<le> n \<and> n \<le> 57)"

definition digits_value :: "string \<Rightarrow> nat" where
  "digits_value ds = foldl (\<lambda>a d. 10 * a + ((of_char d :: nat) - 48)) 0 ds"

definition lex_number :: "string \<Rightarrow> (int \<times> string) option" where
  "lex_number s =
     (let negative = (s \<noteq> [] \<and> hd s = CHR ''-'');
          s1 = (if negative then tl s else s);
          ds = takeWhile is_digit s1;
          rest = dropWhile is_digit s1
      in if ds = [] then None
         else if 1 < length ds \<and> hd ds = CHR ''0'' then None
         else if rest \<noteq> [] \<and> hd rest \<in> {CHR ''.'', CHR ''e'', CHR ''E''} then None
         else Some (if negative then - int (digits_value ds) else int (digits_value ds), rest))"

lemma lex_string_length:
  "lex_string acc s = Some (x, rest) \<Longrightarrow> length rest < length s"
proof (induction s arbitrary: acc rule: length_induct)
  case (1 s)
  have IH: "\<And>s' acc'. lex_string acc' s' = Some (x, rest) \<Longrightarrow> length s' < length s
      \<Longrightarrow> length rest < length s"
    using 1(1) by (meson less_trans)
  show ?case
    using 1(2)
    by (cases s) (auto split: if_splits list.splits option.splits dest!: IH)
qed

lemma lex_number_length:
  "lex_number s = Some (i, rest) \<Longrightarrow> length rest < length s"
  by (cases s)
    (auto simp: lex_number_def Let_def length_dropWhile_le less_Suc_eq_le
      split: if_splits
      intro: le_less_trans [OF length_dropWhile_le] )

text \<open>White space between tokens.\<close>

definition is_ws :: "char \<Rightarrow> bool" where
  "is_ws c = (c = CHR '' '' \<or> c = CHR 0x09 \<or> c = CHR 0x0A \<or> c = CHR 0x0D)"

text \<open>The tokens of one character, and the three literal names.\<close>

definition punctuation :: "char \<Rightarrow> token option" where
  "punctuation c =
     (if c = CHR ''['' then Some TLBracket
      else if c = CHR '']'' then Some TRBracket
      else if c = CHR ''{'' then Some TLBrace
      else if c = CHR ''}'' then Some TRBrace
      else if c = CHR '','' then Some TComma
      else if c = CHR '':'' then Some TColon
      else None)"

definition literal_name :: "string \<Rightarrow> (token \<times> string) option" where
  "literal_name s =
     (if prefix ''true'' s then Some (TTrue, drop 4 s)
      else if prefix ''false'' s then Some (TFalse, drop 5 s)
      else if prefix ''null'' s then Some (TNull, drop 4 s)
      else None)"

text \<open>The token at the head of a text, and the text after it.\<close>

definition next_token :: "string \<Rightarrow> (token \<times> string) option" where
  "next_token s =
     (case s of
        [] \<Rightarrow> None
      | c # cs \<Rightarrow>
          (case punctuation c of
             Some t \<Rightarrow> Some (t, cs)
           | None \<Rightarrow>
               if c = CHR 0x22 then
                 (case lex_string [] cs of
                    None \<Rightarrow> None
                  | Some (x, rest) \<Rightarrow> Some (TString x, rest))
               else if c = CHR ''-'' \<or> is_digit c then
                 (case lex_number s of
                    None \<Rightarrow> None
                  | Some (i, rest) \<Rightarrow> Some (TNumber i, rest))
               else literal_name s))"

lemma literal_name_length:
  assumes "literal_name s = Some (t, rest)"
  shows "length rest < length s"
proof -
  have "s \<noteq> []"
    using assms by (auto simp: literal_name_def)
  moreover have "rest = drop 4 s \<or> rest = drop 5 s"
    using assms by (auto simp: literal_name_def split: if_splits)
  ultimately show ?thesis
    by (cases s) auto
qed

lemma next_token_length:
  assumes "next_token s = Some (t, rest)"
  shows "length rest < length s"
proof (cases s)
  case Nil
  with assms show ?thesis by (simp add: next_token_def)
next
  case (Cons c cs)
  show ?thesis
  proof (cases "punctuation c")
    case (Some p)
    with assms Cons show ?thesis by (simp add: next_token_def)
  next
    case None
    consider (str) "c = CHR 0x22"
      | (num) "c \<noteq> CHR 0x22" "c = CHR ''-'' \<or> is_digit c"
      | (name) "c \<noteq> CHR 0x22" "\<not> (c = CHR ''-'' \<or> is_digit c)"
      by blast
    then show ?thesis
    proof cases
      case str
      with assms Cons None obtain x where "lex_string [] cs = Some (x, rest)"
        by (auto simp: next_token_def split: option.splits)
      then show ?thesis
        using lex_string_length [of "[]" cs x rest] Cons by simp
    next
      case num
      with assms Cons None obtain i where "lex_number s = Some (i, rest)"
        by (auto simp: next_token_def split: option.splits)
      then show ?thesis
        by (rule lex_number_length)
    next
      case name
      with assms Cons None have "literal_name s = Some (t, rest)"
        by (simp add: next_token_def)
      then show ?thesis
        by (rule literal_name_length)
    qed
  qed
qed

text \<open>The text as a list of tokens.\<close>

function lex :: "string \<Rightarrow> token list option" where
  "lex s =
     (case dropWhile is_ws s of
        [] \<Rightarrow> Some []
      | c # cs \<Rightarrow>
          (case next_token (c # cs) of
             None \<Rightarrow> None
           | Some (t, rest) \<Rightarrow> map_option (Cons t) (lex rest)))"
  by pat_completeness auto
termination
proof (relation "measure length", goal_cases)
  case 1
  show ?case by simp
next
  case (2 s c cs x t rest)
  have "length rest < length (c # cs)"
    using 2 next_token_length [of "c # cs" t rest] by simp
  also have "\<dots> \<le> length s"
    using 2(1) length_dropWhile_le [of is_ws s] by simp
  finally show ?case by simp
qed

declare lex.simps [simp del]

text \<open>
  The parser reads the tokens from left to right and keeps a stack of the containers that
  are still open, innermost first. A frame tells what was read of its container: the
  elements or members so far (last first) and whether a value, a separator or a key comes
  next. \<open>TopOpen\<close> waits for the document's value and \<open>TopDone\<close> holds it.
\<close>

datatype frame = TopOpen | TopDone json
  | ArrOpen | ArrItem "json list" | ArrSep "json list"
  | ObjOpen | ObjKey "(string \<times> json) list" string | ObjColon "(string \<times> json) list" string
  | ObjItem "(string \<times> json) list" | ObjSep "(string \<times> json) list"

text \<open>A complete value arrives in the innermost open container.\<close>

fun put_value :: "json \<Rightarrow> frame list \<Rightarrow> frame list option" where
  "put_value v (TopOpen # st) = Some (TopDone v # st)"
| "put_value v (ArrOpen # st) = Some (ArrItem [v] # st)"
| "put_value v (ArrSep vs # st) = Some (ArrItem (v # vs) # st)"
| "put_value v (ObjColon ms k # st) = Some (ObjItem ((k, v) # ms) # st)"
| "put_value v st = None"

fun parse_step :: "token \<Rightarrow> frame list \<Rightarrow> frame list option" where
  "parse_step TLBracket st = Some (ArrOpen # st)"
| "parse_step TLBrace st = Some (ObjOpen # st)"
| "parse_step TRBracket (ArrOpen # st) = put_value (JArr []) st"
| "parse_step TRBracket (ArrItem vs # st) = put_value (JArr (rev vs)) st"
| "parse_step TRBrace (ObjOpen # st) = put_value (JObj []) st"
| "parse_step TRBrace (ObjItem ms # st) = put_value (JObj (rev ms)) st"
| "parse_step TComma (ArrItem vs # st) = Some (ArrSep vs # st)"
| "parse_step TComma (ObjItem ms # st) = Some (ObjSep ms # st)"
| "parse_step TColon (ObjKey ms k # st) = Some (ObjColon ms k # st)"
| "parse_step (TString s) (ObjOpen # st) = Some (ObjKey [] s # st)"
| "parse_step (TString s) (ObjSep ms # st) = Some (ObjKey ms s # st)"
| "parse_step (TString s) st = put_value (JStr s) st"
| "parse_step (TNumber i) st = put_value (JInt i) st"
| "parse_step TTrue st = put_value (JBool True) st"
| "parse_step TFalse st = put_value (JBool False) st"
| "parse_step TNull st = put_value JNull st"
| "parse_step t st = None"

fun parse_steps :: "token list \<Rightarrow> frame list \<Rightarrow> frame list option" where
  "parse_steps [] st = Some st"
| "parse_steps (t # ts) st =
     (case parse_step t st of None \<Rightarrow> None | Some st' \<Rightarrow> parse_steps ts st')"

text \<open>The tokens are a document when they leave one value and nothing open.\<close>

definition parse_tokens :: "token list \<Rightarrow> json option" where
  "parse_tokens ts =
     (case parse_steps ts [TopOpen] of Some [TopDone v] \<Rightarrow> Some v | _ \<Rightarrow> None)"

definition json_loads :: "string \<Rightarrow> json option" where
  "json_loads s = (case lex s of None \<Rightarrow> None | Some ts \<Rightarrow> parse_tokens ts)"

text \<open>The dictionary of a record, as a reader sees it.\<close>

definition news_json :: "news \<Rightarrow> json" where
  "news_json r =
     JObj [(''title'', JStr (title r)), (''summary'', JStr (summary r)),
           (''url'', JStr (url r)), (''page'', JInt (page r))]"

section \<open>Properties\<close>

subsection \<open>Keyword filtering\<close>

text \<open>The specification's notion: \<open>k\<close> is a substring of \<open>s\<close>.\<close>

definition is_substring :: "string \<Rightarrow> string \<Rightarrow> bool" where
  "is_substring k s = (\<exists>ps ss. s = ps @ k @ ss)"

lemma py_in_iff_substring: "py_in sub s \<longleftrightarrow> is_substring sub s"
proof (induction s)
  case Nil
  show ?case by (simp add: is_substring_def)
next
  case (Cons c cs)
  have "is_substring sub (c # cs) \<longleftrightarrow> prefix sub (c # cs) \<or> is_substring sub cs"
    using sublist_Cons_right [of sub c cs] by (simp add: is_substring_def sublist_def)
  with Cons show ?case by simp
qed

lemma results_process_news_item:
  "results (process_news_item item page_num c) =
     results c @ (case extract_item (keywords c) item page_num of
                    Returns (Some r) \<Rightarrow> [r] | _ \<Rightarrow> [])"
  by (simp add: process_news_item_def split: awaited.splits option.splits)

lemma extract_item_Some:
  "extract_item kws item page_num = Returns (Some r) \<Longrightarrow>
     \<not> filtered_out kws (title r) (summary r) \<and> url r \<noteq> [] \<and> page r = page_num"
  by (auto simp: extract_item_def split: awaited.splits option.splits if_splits)

lemma extract_item_linked:
  assumes "query_a item = Returns (Some a)" and "a_text_content a = Returns t"
    and "query_p item = Returns p"
    and "(case p of None \<Rightarrow> Returns (Some []) | Some x \<Rightarrow> x) = Returns s"
    and "a_href a = Returns (Some link)" and "link \<noteq> []"
  shows "extract_item kws item page_num =
     (if filtered_out kws (strip_or_empty t) (strip_or_empty s) then Returns None
      else Returns (Some \<lparr>title = strip_or_empty t, summary = strip_or_empty s,
             url = link, page = page_num\<rparr>))"
  using assms by (simp add: extract_item_def)

text \<open>
  Claim C2. A candidate is an item whose elements are read without an exception and
  whose link has a non-empty address; its title and summary are the stripped texts of
  its link and of its paragraph. \<^verbatim>\<open>process_news_item\<close> appends the record of a
  candidate if and only if the keyword list is empty or some keyword is a substring
  (literal, compared character by character, so with upper and lower case distinct) of
  the title or of the summary; the record has that title and summary, the address, and
  the page number. Nothing else is appended: whatever the item, at most one record is,
  and it passes the keyword test of line 41, which is this condition on any two strings.
\<close>

theorem keyword_filter_matches:
  "(query_a item = Returns (Some a) \<and> a_text_content a = Returns t \<and>
    query_p item = Returns p \<and>
    (case p of None \<Rightarrow> Returns (Some []) | Some x \<Rightarrow> x) = Returns s \<and>
    a_href a = Returns (Some link) \<and> link \<noteq> [] \<longrightarrow>
      results (process_news_item item page_num c) =
        (if keywords c = [] \<or>
            (\<exists>k \<in> set (keywords c).
               is_substring k (strip_or_empty t) \<or> is_substring k (strip_or_empty s))
         then results c @ [\<lparr>title = strip_or_empty t, summary = strip_or_empty s,
                url = link, page = page_num\<rparr>]
         else results c)) \<and>
   (\<not> filtered_out K ttl smry \<longleftrightarrow>
      K = [] \<or> (\<exists>k \<in> set K. is_substring k ttl \<or> is_substring k smry)) \<and>
   (results (process_news_item item page_num c) = results c \<or>
    (\<exists>r. results (process_news_item item page_num c) = results c @ [r] \<and>
         \<not> filtered_out (keywords c) (title r) (summary r)))"
proof (intro conjI impI)
  have test: "\<not> filtered_out K' t' s' \<longleftrightarrow>
      K' = [] \<or> (\<exists>k \<in> set K'. is_substring k t' \<or> is_substring k s')" for K' t' s'
    by (auto simp: filtered_out_def list_ex_iff py_in_iff_substring)
  show "\<not> filtered_out K ttl smry \<longleftrightarrow>
      K = [] \<or> (\<exists>k \<in> set K. is_substring k ttl \<or> is_substring k smry)"
    by (rule test)
  show "results (process_news_item item page_num c) =
      (if keywords c = [] \<or>
          (\<exists>k \<in> set (keywords c).
             is_substring k (strip_or_empty t) \<or> is_substring k (strip_or_empty s))
       then results c @ [\<lparr>title = strip_or_empty t, summary = strip_or_empty s,
              url = link, page = page_num\<rparr>]
       else results c)"
    if "query_a item = Returns (Some a) \<and> a_text_content a = Returns t \<and>
      query_p item = Returns p \<and>
      (case p of None \<Rightarrow> Returns (Some []) | Some x \<Rightarrow> x) = Returns s \<and>
      a_href a = Returns (Some link) \<and> link \<noteq> []"
  proof -
    from that have h: "query_a item = Returns (Some a)" "a_text_content a = Returns t"
      "query_p item = Returns p"
      "(case p of None \<Rightarrow> Returns (Some []) | Some x \<Rightarrow> x) = Returns s"
      "a_href a = Returns (Some link)" "link \<noteq> []"
      by blast+
    have e: "extract_item (keywords c) item page_num =
        (if filtered_out (keywords c) (strip_or_empty t) (strip_or_empty s) then Returns None
         else Returns (Some \<lparr>title = strip_or_empty t, summary = strip_or_empty s,
                url = link, page = page_num\<rparr>))"
      by (rule extract_item_linked [OF h])
    let ?matches = "keywords c = [] \<or>
      (\<exists>k \<in> set (keywords c).
         is_substring k (strip_or_empty t) \<or> is_substring k (strip_or_empty s))"
    show ?thesis
    proof (cases "filtered_out (keywords c) (strip_or_empty t) (strip_or_empty s)")
      case True
      then have "\<not> ?matches"
        using test [of "keywords c" "strip_or_empty t" "strip_or_empty s"] by blast
      moreover have "results (process_news_item item page_num c) = results c"
        using True e by (simp add: results_process_news_item)
      ultimately show ?thesis
        by (simp only: if_False)
    next
      case False
      then have "?matches"
        using test [of "keywords c" "strip_or_empty t" "strip_or_empty s"] by blast
      moreover have "results (process_news_item item page_num c) =
          results c @ [\<lparr>title = strip_or_empty t, summary = strip_or_empty s,
            url = link, page = page_num\<rparr>]"
        using False e by (simp add: results_process_news_item)
      ultimately show ?thesis
        by (simp only: if_True)
    qed
  qed
  show "results (process_news_item item page_num c) = results c \<or>
    (\<exists>r. results (process_news_item item page_num c) = results c @ [r] \<and>
         \<not> filtered_out (keywords c) (title r) (summary r))"
  proof (cases "extract_item (keywords c) item page_num")
    case (Returns x)
    then show ?thesis
      using extract_item_Some [of "keywords c" item page_num]
      by (cases x) (simp_all add: results_process_news_item)
  next
    case (Raises e)
    then show ?thesis by (simp add: results_process_news_item)
  qed
qed

text \<open>
  An item that matches the keyword \<open>market\<close>: the text of its link is stripped to the
  title \<open>market up\<close>, and it has no paragraph.
\<close>

definition market_item :: news_item where
  "market_item =
     \<lparr>query_a = Returns (Some \<lparr>a_text_content = Returns (Some '' market up ''),
                                a_href = Returns (Some ''http://a'')\<rparr>),
      query_p = Returns None\<rparr>"

definition market_record :: news where
  "market_record = \<lparr>title = ''market up'', summary = [], url = ''http://a'', page = 1\<rparr>"

lemma strip_market: "strip_or_empty (Some '' market up '') = ''market up''"
  by (simp add: strip_or_empty_def strip_def is_space_def)

theorem keyword_filter_matches_witness:
  "results (process_news_item market_item 1 (new_crawler [''market'', ''oil''] 5 None)) =
     [market_record] \<and>
   results (process_news_item market_item 1 (new_crawler [''Market''] 5 None)) = [] \<and>
   results (process_news_item market_item 1 (new_crawler [] 5 None)) = [market_record] \<and>
   \<not> filtered_out [''market'', ''oil''] ''market up'' [] \<and>
   filtered_out [''Market''] ''market up'' []"
proof -
  have item: "query_a market_item =
      Returns (Some \<lparr>a_text_content = Returns (Some '' market up ''),
                      a_href = Returns (Some ''http://a'')\<rparr>) \<and>
    a_text_content \<lparr>a_text_content = Returns (Some '' market up ''),
                    a_href = Returns (Some ''http://a'')\<rparr> = Returns (Some '' market up '') \<and>
    query_p market_item = Returns None \<and>
    (case None of None \<Rightarrow> Returns (Some []) | Some x \<Rightarrow> x) = Returns (Some []) \<and>
    a_href \<lparr>a_text_content = Returns (Some '' market up ''),
            a_href = Returns (Some ''http://a'')\<rparr> = Returns (Some ''http://a'') \<and>
    ''http://a'' \<noteq> []"
    by (simp add: market_item_def)
  have e: "strip_or_empty (Some []) = []"
    by (simp add: strip_or_empty_def)
  have "py_in ''market'' ''market up''"
    by simp
  then have yes: "is_substring ''market'' ''market up''"
    by (simp only: py_in_iff_substring)
  have no: "\<not> is_substring ''Market'' ''market up''" "\<not> is_substring ''Market'' []"
    "\<not> is_substring ''market'' []" "\<not> is_substring ''oil'' []"
    by (simp_all flip: py_in_iff_substring)
  note inst = keyword_filter_matches [of market_item
      "\<lparr>a_text_content = Returns (Some '' market up ''), a_href = Returns (Some ''http://a'')\<rparr>"
      "Some '' market up ''" None "Some []" "''http://a''" 1]
  from inst [of "new_crawler [''market'', ''oil''] 5 None" "[''market'', ''oil'']"
      "''market up''" "[]"]
    inst [of "new_crawler [''Market''] 5 None" "[''Market'']" "''market up''" "[]"]
    inst [of "new_crawler [] 5 None" "[]" "''market up''" "[]"]
  show ?thesis
    using item yes no
    by (simp add: strip_market e new_crawler_def market_record_def)
qed

subsection \<open>Saving nothing\<close>

text \<open>
  Claim C5. \<^verbatim>\<open>save_results\<close> with no results returns at once: the file keeps its
  content, a missing file stays missing, and the crawler has a file name only if it had
  one before. All that changes is one more printed line.
\<close>

theorem save_results_empty:
  assumes "results c = []"
  shows "save_results incremental c = Done (c\<lparr>stdout := stdout c @ [NoResults]\<rparr>) \<and>
         (\<exists>c'. save_results incremental c = Done c' \<and> disk c' = disk c \<and>
           has_filename c' = has_filename c \<and> results c' = [])"
  using assms by (simp add: save_results_def say_def)

theorem save_results_empty_witness:
  "results (new_crawler [''market''] 5 None) = [] \<and>
   save_results True (new_crawler [''market''] 5 None) =
     Done ((new_crawler [''market''] 5 None)\<lparr>stdout := [NoResults]\<rparr>) \<and>
   (\<exists>c'. save_results True (new_crawler [''market''] 5 None) = Done c' \<and>
      disk c' = None \<and> has_filename c' = False \<and> results c' = [])"
  using save_results_empty [of "new_crawler [''market''] 5 None" True]
  by (simp add: new_crawler_def)

subsection \<open>The shape of the output file\<close>

text \<open>
  The file after the batches \<open>bs\<close> were saved one after the other: the dumps of the
  batches, separated by a comma and a line break, between an opening and a closing line.
\<close>

definition document :: "news list list \<Rightarrow> string" where
  "document bs =
     ''[\<newline>'' @ join ('','' @ ''\<newline>'') (map json_dump bs) @ ''\<newline>]''"

lemma join_snoc: "join sep (xs @ [x]) = (if xs = [] then x else join sep xs @ sep @ x)"
  by (induction sep xs rule: join.induct) auto

lemma join_Cons: "join sep (x # xs) = (if xs = [] then x else x @ sep @ join sep xs)"
  by (cases xs) auto

lemma document_snoc:
  "bs \<noteq> [] \<Longrightarrow>
   take (length (document bs) - 2) (document bs) @ '','' @ ''\<newline>'' @ json_dump b @ ''\<newline>]'' =
     document (bs @ [b])"
  by (simp add: document_def join_snoc)

lemma document_single: "''[\<newline>'' @ json_dump b @ ''\<newline>]'' = document [b]"
  by (simp add: document_def)

lemma length_document: "2 \<le> length (document bs)"
  by (simp add: document_def)

lemma last_document: "last (document bs) = CHR '']''"
  by (simp add: document_def)

subsection \<open>The clean-up finds nothing to replace\<close>

lemma py_replace_absent: "\<not> py_in old s \<Longrightarrow> py_replace old new s = s"
  by (induction s) auto

lemma py_in_skip: "c \<noteq> CHR '','' \<Longrightarrow> py_in '',\<newline>]'' (c # s) = py_in '',\<newline>]'' s"
  by simp

lemma py_in_skip_no_comma:
  "CHR '','' \<notin> set a \<Longrightarrow> py_in '',\<newline>]'' (a @ s) = py_in '',\<newline>]'' s"
  by (induction a) auto

lemma py_in_skip_no_newline:
  "CHR 0x0A \<notin> set a \<Longrightarrow> c \<noteq> CHR 0x0A \<Longrightarrow>
   py_in '',\<newline>]'' (a @ c # s) = py_in '',\<newline>]'' (c # s)"
proof (induction a)
  case Nil
  show ?case by simp
next
  case (Cons x a)
  then show ?case by (cases a) auto
qed

lemma of_char_hex_digit:
  "d < 16 \<Longrightarrow> (of_char (hex_digit d) :: nat) = (if d < 10 then 48 + d else 87 + d)"
  by (simp add: hex_digit_def)

lemma hex_digit_neq:
  assumes "d < 16" and "(of_char c :: nat) < 48"
  shows "hex_digit d \<noteq> c"
proof
  assume "hex_digit d = c"
  then have "(of_char (hex_digit d) :: nat) = of_char c" by simp
  with assms show False by (simp add: of_char_hex_digit split: if_splits)
qed

lemma newline_escape_char: "CHR 0x0A \<notin> set (escape_char c)"
  by (auto simp: escape_char_def hex_digit_neq [symmetric] less_mult_imp_div_less)

lemma newline_dump_str: "CHR 0x0A \<notin> set (dump_str x)"
  by (simp add: dump_str_def newline_escape_char)

lemma is_digit_digits: "c \<in> set (digits n) \<Longrightarrow> is_digit c"
proof (induction n rule: digits.induct)
  case (1 n)
  show ?case
  proof (cases "n < 10")
    case True
    then have "digits n = [char_of (48 + n)]"
      by (subst digits.simps) simp
    with 1(2) True show ?thesis
      by (simp add: is_digit_def)
  next
    case False
    then have "digits n = digits (n div 10) @ [char_of (48 + n mod 10)]"
      by (subst digits.simps) simp
    moreover have "is_digit (char_of (48 + n mod 10))"
      by (simp add: is_digit_def)
    ultimately show ?thesis
      using 1 False by auto
  qed
qed

lemma comma_dump_int: "CHR '','' \<notin> set (dump_int i)"
  using is_digit_digits [of "CHR '',''"] by (auto simp: dump_int_def is_digit_def)

lemma py_in_dump_str [simp]:
  "c \<noteq> CHR 0x0A \<Longrightarrow>
   py_in '',\<newline>]'' (dump_str x @ c # s) = py_in '',\<newline>]'' (c # s)"
  by (rule py_in_skip_no_newline [OF newline_dump_str])

lemma py_in_dump_int [simp]:
  "py_in '',\<newline>]'' (dump_int i @ s) = py_in '',\<newline>]'' s"
  by (rule py_in_skip_no_comma [OF comma_dump_int])

lemma py_in_dump_news [simp]:
  "py_in '',\<newline>]'' (dump_news r @ s) = py_in '',\<newline>]'' s"
  by (simp add: dump_news_def)

lemma py_in_join_dump_news:
  "py_in '',\<newline>]'' (join ('','' @ ''\<newline>  '') (map dump_news rs) @ s) = py_in '',\<newline>]'' s"
proof (induction rs)
  case Nil
  show ?case by simp
next
  case (Cons r rs)
  then show ?case by (simp add: join_Cons)
qed

lemma py_in_json_dump [simp]:
  "py_in '',\<newline>]'' (json_dump rs @ s) = py_in '',\<newline>]'' s"
  using py_in_join_dump_news [of rs "''\<newline>]'' @ s"] by (simp add: json_dump_def)

lemma json_dump_head: "\<exists>t. json_dump rs = CHR ''['' # t"
  by (cases "rs = []") (simp_all add: json_dump_def)

lemma join_json_dump_head:
  "bs \<noteq> [] \<Longrightarrow> \<exists>t. join sep (map json_dump bs) = CHR ''['' # t"
  using json_dump_head [of "hd bs"] by (cases bs) (auto simp: join_Cons)

lemma py_in_join_json_dump:
  "py_in '',\<newline>]'' (join ('','' @ ''\<newline>'') (map json_dump bs) @ s) = py_in '',\<newline>]'' s"
proof (induction bs)
  case Nil
  show ?case by simp
next
  case (Cons b bs)
  show ?case
  proof (cases "bs = []")
    case True
    then show ?thesis by simp
  next
    case False
    then obtain t where t: "join ('','' @ ''\<newline>'') (map json_dump bs) = CHR ''['' # t"
      using join_json_dump_head by blast
    have "py_in '',\<newline>]'' (join ('','' @ ''\<newline>'') (map json_dump (b # bs)) @ s) =
        py_in '',\<newline>]'' ('','' @ ''\<newline>'' @ join ('','' @ ''\<newline>'') (map json_dump bs) @ s)"
      using False by (simp add: join_Cons)
    also have "\<dots> = py_in '',\<newline>]'' (join ('','' @ ''\<newline>'') (map json_dump bs) @ s)"
      using t by simp
    finally show ?thesis
      using Cons.IH by simp
  qed
qed

lemma document_no_artifact: "\<not> py_in '',\<newline>]'' (document bs)"
  using py_in_join_json_dump [of bs "''\<newline>]''"] by (simp add: document_def)

lemma finalize_document: "finalize (document bs) = document bs"
  by (simp add: finalize_def py_replace_absent document_no_artifact)

subsection \<open>Reading back what the encoder wrote\<close>

lemma lex_ws [simp]: "is_ws c \<Longrightarrow> lex (c # s) = lex s"
  by (simp add: lex.simps [of "c # s"] lex.simps [of s])

lemma lex_token:
  "\<not> is_ws c \<Longrightarrow> next_token (c # s) = Some (t, rest) \<Longrightarrow>
   lex (c # s) = map_option (Cons t) (lex rest)"
  by (simp add: lex.simps [of "c # s"])

lemma lex_Nil [simp]: "lex [] = Some []"
  by (simp add: lex.simps [of "[]"])

lemma lex_punctuation [simp]:
  "lex (CHR ''['' # s) = map_option (Cons TLBracket) (lex s)"
  "lex (CHR '']'' # s) = map_option (Cons TRBracket) (lex s)"
  "lex (CHR ''{'' # s) = map_option (Cons TLBrace) (lex s)"
  "lex (CHR ''}'' # s) = map_option (Cons TRBrace) (lex s)"
  "lex (CHR '','' # s) = map_option (Cons TComma) (lex s)"
  "lex (CHR '':'' # s) = map_option (Cons TColon) (lex s)"
  by (rule lex_token; simp add: is_ws_def next_token_def punctuation_def)+

lemma is_ws_simps [simp]: "is_ws (CHR '' '')" "is_ws (CHR 0x0A)"
  by (simp_all add: is_ws_def)

lemma hex_value_hex_digit: "d < 16 \<Longrightarrow> hex_value (hex_digit d) = Some d"
  by (auto simp: hex_value_def Let_def of_char_hex_digit)

lemma hex_value_zero: "hex_value (CHR ''0'') = Some 0"
  by (simp add: hex_value_def)

lemma lex_string_escape_char: "lex_string acc (escape_char c @ s) = lex_string (c # acc) s"
proof -
  consider (special) "c \<in> {CHR 0x5C, CHR 0x22, CHR 0x08, CHR 0x0C, CHR 0x0A, CHR 0x0D, CHR 0x09}"
    | (control) "c \<notin> {CHR 0x5C, CHR 0x22, CHR 0x08, CHR 0x0C, CHR 0x0A, CHR 0x0D, CHR 0x09}"
        "(of_char c :: nat) < 32"
    | (plain) "c \<notin> {CHR 0x5C, CHR 0x22, CHR 0x08, CHR 0x0C, CHR 0x0A, CHR 0x0D, CHR 0x09}"
        "\<not> (of_char c :: nat) < 32"
    by blast
  then show ?thesis
  proof cases
    case special
    then show ?thesis
      by (auto simp: escape_char_def unescape_def)
  next
    case control
    let ?n = "of_char c :: nat"
    have lt: "?n div 16 < 16" "?n mod 16 < 16"
      using control(2) by simp_all
    have esc: "escape_char c = [CHR 0x5C, CHR ''u'', CHR ''0'', CHR ''0'',
        hex_digit (?n div 16), hex_digit (?n mod 16)]"
      using control by (simp add: escape_char_def)
    have "hex4 (CHR ''0'') (CHR ''0'') (hex_digit (?n div 16)) (hex_digit (?n mod 16)) =
        Some (char_of (16 * (?n div 16) + ?n mod 16))"
      by (simp add: hex4_def hex_value_zero hex_value_hex_digit lt)
    moreover have "char_of (16 * (?n div 16) + ?n mod 16) = c"
      by simp
    ultimately show ?thesis
      by (simp add: esc)
  next
    case plain
    then show ?thesis
      by (simp add: escape_char_def)
  qed
qed

lemma lex_string_escaped:
  "lex_string acc (concat (map escape_char x) @ CHR 0x22 # s) = Some (rev acc @ x, s)"
  by (induction x arbitrary: acc) (simp_all add: lex_string_escape_char)

lemma lex_dump_str [simp]: "lex (dump_str x @ s) = map_option (Cons (TString x)) (lex s)"
proof -
  have "next_token (CHR 0x22 # concat (map escape_char x) @ CHR 0x22 # s) = Some (TString x, s)"
    using lex_string_escaped [of "[]" x s] by (simp add: next_token_def punctuation_def)
  then show ?thesis
    by (simp add: dump_str_def lex_token is_ws_def)
qed

lemma digits_small: "n < 10 \<Longrightarrow> digits n = [char_of (48 + n)]"
  by (subst digits.simps) simp

lemma digits_large:
  "\<not> n < 10 \<Longrightarrow> digits n = digits (n div 10) @ [char_of (48 + n mod 10)]"
  by (subst digits.simps) simp

lemma digits_nonempty: "digits n \<noteq> []"
  by (cases "n < 10") (simp_all add: digits_small digits_large)

lemma digits_value_digits: "digits_value (digits n) = n"
proof (induction n rule: digits.induct)
  case (1 n)
  show ?case
  proof (cases "n < 10")
    case True
    then show ?thesis
      by (simp add: digits_small digits_value_def)
  next
    case False
    have "digits_value (digits n) =
        10 * digits_value (digits (n div 10)) + ((of_char (char_of (48 + n mod 10)) :: nat) - 48)"
      using False by (simp add: digits_large digits_value_def)
    also have "(of_char (char_of (48 + n mod 10)) :: nat) = 48 + n mod 10"
      by simp
    finally show ?thesis
      using 1 False by simp
  qed
qed

lemma hd_digits: "0 < n \<Longrightarrow> hd (digits n) \<noteq> CHR ''0''"
proof (induction n rule: digits.induct)
  case (1 n)
  show ?case
  proof (cases "n < 10")
    case True
    have "char_of (48 + n) \<noteq> CHR ''0''"
    proof
      assume "char_of (48 + n) = CHR ''0''"
      then have "(of_char (char_of (48 + n)) :: nat) = of_char (CHR ''0'')"
        by simp
      with True 1(2) show False by simp
    qed
    with True show ?thesis
      by (simp add: digits_small)
  next
    case False
    then have "hd (digits n) = hd (digits (n div 10))"
      by (simp add: digits_large digits_nonempty)
    with 1 False show ?thesis by simp
  qed
qed

lemma length_digits: "1 < length (digits n) \<Longrightarrow> 0 < n"
  by (cases "n < 10") (simp_all add: digits_small)

text \<open>A number ends where the next character cannot continue it.\<close>

definition number_ends :: "string \<Rightarrow> bool" where
  "number_ends s =
     (s = [] \<or> (\<not> is_digit (hd s) \<and> hd s \<notin> {CHR ''.'', CHR ''e'', CHR ''E''}))"

lemma takeWhile_digits:
  "number_ends s \<Longrightarrow> takeWhile is_digit (digits n @ s) = digits n"
  "number_ends s \<Longrightarrow> dropWhile is_digit (digits n @ s) = s"
  by (cases s; simp add: number_ends_def takeWhile_append dropWhile_append is_digit_digits
      takeWhile_eq_all_conv [THEN iffD2])+

lemma lex_number_digits:
  assumes "number_ends s"
  shows "lex_number (digits n @ s) = Some (int n, s)"
proof -
  have "hd (digits n @ s) \<noteq> CHR ''-''"
    using is_digit_digits [of "hd (digits n)" n] digits_nonempty [of n]
    by (auto simp: is_digit_def)
  moreover have "\<not> (1 < length (digits n) \<and> hd (digits n) = CHR ''0'')"
    using hd_digits length_digits by blast
  moreover have "\<not> (s \<noteq> [] \<and> hd s \<in> {CHR ''.'', CHR ''e'', CHR ''E''})"
    using assms by (auto simp: number_ends_def)
  ultimately show ?thesis
    using assms
    by (simp add: lex_number_def Let_def takeWhile_digits digits_nonempty digits_value_digits)
qed

lemma lex_number_minus_digits:
  assumes "number_ends s"
  shows "lex_number (CHR ''-'' # digits n @ s) = Some (- int n, s)"
proof -
  have "\<not> (1 < length (digits n) \<and> hd (digits n) = CHR ''0'')"
    using hd_digits length_digits by blast
  moreover have "\<not> (s \<noteq> [] \<and> hd s \<in> {CHR ''.'', CHR ''e'', CHR ''E''})"
    using assms by (auto simp: number_ends_def)
  ultimately show ?thesis
    using assms
    by (simp add: lex_number_def Let_def takeWhile_digits digits_nonempty digits_value_digits)
qed

lemma lex_number_dump_int:
  "number_ends s \<Longrightarrow> lex_number (dump_int i @ s) = Some (i, s)"
  by (simp add: dump_int_def lex_number_digits lex_number_minus_digits)

lemma lex_dump_int:
  assumes "number_ends s"
  shows "lex (dump_int i @ s) = map_option (Cons (TNumber i)) (lex s)"
proof -
  have "\<exists>c t. dump_int i = c # t \<and> (c = CHR ''-'' \<or> is_digit c)"
  proof (cases "i < 0")
    case True
    then show ?thesis by (simp add: dump_int_def)
  next
    case False
    obtain d ds where "digits (nat i) = d # ds"
      using digits_nonempty [of "nat i"] by (cases "digits (nat i)") auto
    moreover from this have "is_digit d"
      using is_digit_digits [of d "nat i"] by simp
    ultimately show ?thesis
      using False by (simp add: dump_int_def)
  qed
  then obtain c t where ct: "dump_int i = c # t" and c: "c = CHR ''-'' \<or> is_digit c"
    by blast
  have "punctuation c = None" "c \<noteq> CHR 0x22" "\<not> is_ws c"
    using c by (auto simp: punctuation_def is_digit_def is_ws_def)
  then have "next_token (c # t @ s) = Some (TNumber i, s)"
    using c lex_number_dump_int [OF assms, of i] ct by (simp add: next_token_def)
  with \<open>\<not> is_ws c\<close> show ?thesis
    by (simp add: ct lex_token)
qed

text \<open>The tokens of a dictionary, and of an array whose elements have the given tokens.\<close>

definition news_tokens :: "news \<Rightarrow> token list" where
  "news_tokens r =
     [TLBrace, TString ''title'', TColon, TString (title r), TComma,
      TString ''summary'', TColon, TString (summary r), TComma,
      TString ''url'', TColon, TString (url r), TComma,
      TString ''page'', TColon, TNumber (page r), TRBrace]"

definition array_tokens :: "token list list \<Rightarrow> token list" where
  "array_tokens xs = TLBracket # join [TComma] xs @ [TRBracket]"

lemma number_ends_newline [simp]: "number_ends (CHR 0x0A # s)"
  by (simp add: number_ends_def is_digit_def)

lemma lex_dump_news:
  "lex (dump_news r @ s) = map_option ((@) (news_tokens r)) (lex s)"
  by (cases "lex s") (simp_all add: dump_news_def news_tokens_def lex_dump_int)

lemma join_concat: "join sep (x # xs) = x @ concat (map (\<lambda>y. sep @ y) xs)"
  by (induction xs arbitrary: x) (simp_all add: join_Cons)

lemma lex_separated:
  assumes item: "\<And>x s. lex (txt x @ s) = map_option ((@) (tk x)) (lex s)"
    and comma: "\<And>s. lex (sep @ s) = map_option (Cons TComma) (lex s)"
  shows "lex (concat (map (\<lambda>y. sep @ txt y) xs) @ s) =
         map_option ((@) (concat (map (\<lambda>y. [TComma] @ tk y) xs))) (lex s)"
proof (induction xs)
  case Nil
  show ?case by (cases "lex s") simp_all
next
  case (Cons x xs)
  have "lex (concat (map (\<lambda>y. sep @ txt y) (x # xs)) @ s) =
      lex (sep @ txt x @ concat (map (\<lambda>y. sep @ txt y) xs) @ s)"
    by simp
  also have "\<dots> = map_option (Cons TComma) (map_option ((@) (tk x))
      (map_option ((@) (concat (map (\<lambda>y. [TComma] @ tk y) xs))) (lex s)))"
    by (simp only: comma item Cons.IH)
  finally show ?case
    by (cases "lex s") simp_all
qed

lemma lex_join:
  assumes item: "\<And>x s. lex (txt x @ s) = map_option ((@) (tk x)) (lex s)"
    and comma: "\<And>s. lex (sep @ s) = map_option (Cons TComma) (lex s)"
  shows "lex (join sep (map txt xs) @ s) = map_option ((@) (join [TComma] (map tk xs))) (lex s)"
proof (cases xs)
  case Nil
  then show ?thesis by (cases "lex s") simp_all
next
  case (Cons x xs')
  have "lex (join sep (map txt xs) @ s) =
      map_option ((@) (tk x)) (lex (concat (map (\<lambda>y. sep @ txt y) xs') @ s))"
    using item [of x] by (simp add: Cons join_concat comp_def)
  also have "lex (concat (map (\<lambda>y. sep @ txt y) xs') @ s) =
      map_option ((@) (concat (map (\<lambda>y. [TComma] @ tk y) xs'))) (lex s)"
    using item comma by (rule lex_separated)
  finally show ?thesis
    by (cases "lex s") (simp_all add: Cons join_concat comp_def)
qed

lemma lex_json_dump:
  "lex (json_dump rs @ s) = map_option ((@) (array_tokens (map news_tokens rs))) (lex s)"
proof (cases "rs = []")
  case True
  then show ?thesis
    by (cases "lex s") (simp_all add: json_dump_def array_tokens_def)
next
  case False
  have "lex (join ('','' @ ''\<newline>  '') (map dump_news rs) @ ''\<newline>]'' @ s) =
      map_option ((@) (join [TComma] (map news_tokens rs))) (lex (''\<newline>]'' @ s))"
    by (rule lex_join) (simp_all add: lex_dump_news)
  with False show ?thesis
    by (cases "lex s") (simp_all add: json_dump_def array_tokens_def)
qed

lemma lex_document:
  "lex (document bs) =
     Some (array_tokens (map (\<lambda>b. array_tokens (map news_tokens b)) bs))"
proof -
  have "lex (join ('','' @ ''\<newline>'') (map json_dump bs) @ ''\<newline>]'') =
      map_option ((@) (join [TComma] (map (\<lambda>b. array_tokens (map news_tokens b)) bs)))
        (lex ''\<newline>]'')"
    by (rule lex_join) (simp_all add: lex_json_dump)
  then show ?thesis
    by (simp add: document_def array_tokens_def)
qed

lemma parse_steps_append:
  "parse_steps (a @ b) st =
     (case parse_steps a st of None \<Rightarrow> None | Some st' \<Rightarrow> parse_steps b st')"
  by (induction a arbitrary: st) (simp_all split: option.splits)

lemma parse_steps_news: "parse_steps (news_tokens r) st = put_value (news_json r) st"
  by (cases "put_value (news_json r) st") (simp_all add: news_tokens_def news_json_def)

lemma parse_steps_elements:
  assumes "\<And>x st. x \<in> set xs \<Longrightarrow> parse_steps (tk x) st = put_value (vl x) st"
  shows "parse_steps (concat (map (\<lambda>y. [TComma] @ tk y) xs) @ [TRBracket]) (ArrItem vs # st) =
         put_value (JArr (rev vs @ map vl xs)) st"
  using assms
proof (induction xs arbitrary: vs)
  case Nil
  show ?case
    by (cases "put_value (JArr (rev vs)) st") simp_all
next
  case (Cons x xs)
  have "parse_steps (concat (map (\<lambda>y. [TComma] @ tk y) (x # xs)) @ [TRBracket])
          (ArrItem vs # st) =
        parse_steps (tk x @ concat (map (\<lambda>y. [TComma] @ tk y) xs) @ [TRBracket])
          (ArrSep vs # st)"
    by simp
  also have "\<dots> = parse_steps (concat (map (\<lambda>y. [TComma] @ tk y) xs) @ [TRBracket])
          (ArrItem (vl x # vs) # st)"
    using Cons.prems [of x "ArrSep vs # st"] by (simp add: parse_steps_append)
  also have "\<dots> = put_value (JArr (rev (vl x # vs) @ map vl xs)) st"
    using Cons.prems by (intro Cons.IH) simp
  finally show ?case by simp
qed

lemma parse_steps_array:
  assumes "\<And>x st. x \<in> set xs \<Longrightarrow> parse_steps (tk x) st = put_value (vl x) st"
  shows "parse_steps (array_tokens (map tk xs)) st = put_value (JArr (map vl xs)) st"
proof (cases xs)
  case Nil
  then show ?thesis
    by (cases "put_value (JArr []) st") (simp_all add: array_tokens_def)
next
  case (Cons x xs')
  have "parse_steps (array_tokens (map tk xs)) st =
      parse_steps (tk x @ concat (map (\<lambda>y. [TComma] @ tk y) xs') @ [TRBracket]) (ArrOpen # st)"
    by (simp add: Cons array_tokens_def join_concat comp_def)
  also have "\<dots> = parse_steps (concat (map (\<lambda>y. [TComma] @ tk y) xs') @ [TRBracket])
      (ArrItem [vl x] # st)"
    using assms [of x "ArrOpen # st"] by (simp add: Cons parse_steps_append)
  also have "\<dots> = put_value (JArr (rev [vl x] @ map vl xs')) st"
    using assms by (intro parse_steps_elements) (simp add: Cons)
  finally show ?thesis
    by (simp add: Cons)
qed

text \<open>The values a reader gets: one array for each batch, in an array.\<close>

definition batches_json :: "news list list \<Rightarrow> json" where
  "batches_json bs = JArr (map (\<lambda>b. JArr (map news_json b)) bs)"

lemma json_loads_document: "json_loads (document bs) = Some (batches_json bs)"
proof -
  have "parse_steps (array_tokens (map (\<lambda>b. array_tokens (map news_tokens b)) bs)) [TopOpen] =
      put_value (JArr (map (\<lambda>b. JArr (map news_json b)) bs)) [TopOpen]"
    by (intro parse_steps_array) (simp add: parse_steps_news)
  then show ?thesis
    by (simp add: json_loads_def lex_document parse_tokens_def batches_json_def)
qed

subsection \<open>What a page adds to the results\<close>

text \<open>
  The records of a page: every item is extracted on its own, and an item that raises or
  returns early gives no record.
\<close>

definition item_records :: "string list \<Rightarrow> int \<Rightarrow> news_item \<Rightarrow> news list" where
  "item_records kws page_num item =
     (case extract_item kws item page_num of Returns (Some r) \<Rightarrow> [r] | _ \<Rightarrow> [])"

definition page_records :: "string list \<Rightarrow> int \<Rightarrow> news_item list \<Rightarrow> news list" where
  "page_records kws page_num items = concat (map (item_records kws page_num) items)"

lemma process_news_item_fields [simp]:
  "keywords (process_news_item item page_num c) = keywords c"
  "disk (process_news_item item page_num c) = disk c"
  "has_filename (process_news_item item page_num c) = has_filename c"
  "results (process_news_item item page_num c) =
     results c @ item_records (keywords c) page_num item"
  by (simp_all add: process_news_item_def item_records_def split: awaited.splits option.splits)

lemma foldl_process_fields [simp]:
  "keywords (foldl (\<lambda>s item. process_news_item item page_num s) c items) = keywords c"
  "disk (foldl (\<lambda>s item. process_news_item item page_num s) c items) = disk c"
  "has_filename (foldl (\<lambda>s item. process_news_item item page_num s) c items) = has_filename c"
  by (induction items arbitrary: c) simp_all

lemma foldl_process_results [simp]:
  "results (foldl (\<lambda>s item. process_news_item item page_num s) c items) =
     results c @ page_records (keywords c) page_num items"
  by (induction items arbitrary: c) (simp_all add: page_records_def)

lemma say_fields [simp]:
  "keywords (say m c) = keywords c"
  "disk (say m c) = disk c"
  "has_filename (say m c) = has_filename c"
  "results (say m c) = results c"
  "stdout (say m c) = stdout c @ [m]"
  by (simp_all add: say_def)

lemma scrape_page_fields:
  assumes "scrape_page pg page_num c = (ok, c')"
  shows "keywords c' = keywords c" and "disk c' = disk c"
    and "has_filename c' = has_filename c"
  using assms by (auto simp: scrape_page_def split: awaited.splits)

text \<open>The items of a page in the order in which they are processed.\<close>

definition processed_items :: "page_view \<Rightarrow> news_item list" where
  "processed_items pg =
     (case query_news_items pg of
        Returns items \<Rightarrow> gather_order (finish_time pg) items
      | Raises e \<Rightarrow> [])"

lemma mset_gather_order [simp]: "mset (gather_order finish xs) = mset xs"
proof -
  have "mset (gather_order finish xs) =
      image_mset snd (mset (sort_key (\<lambda>p. finish (fst p)) (enumerate 0 xs)))"
    unfolding gather_order_def by (rule mset_map)
  also have "\<dots> = image_mset snd (mset (enumerate 0 xs))"
    by (simp only: mset_sort)
  also have "\<dots> = mset (map snd (enumerate 0 xs))"
    by (rule mset_map [symmetric])
  also have "\<dots> = mset xs"
    by (simp only: map_snd_enumerate)
  finally show ?thesis .
qed

lemma set_gather_order [simp]: "set (gather_order finish xs) = set xs"
  using mset_gather_order [of finish xs] by (metis set_mset_mset)

lemma gather_order_Nil [simp]: "gather_order finish [] = []"
  by (simp add: gather_order_def)

lemma gather_order_single [simp]: "gather_order finish [x] = [x]"
  by (simp add: gather_order_def)

lemma scrape_page_results:
  assumes "scrape_page pg page_num c = (ok, c')"
  shows "results c' =
     results c @ (if ok then page_records (keywords c) page_num (processed_items pg) else [])"
  using assms by (auto simp: scrape_page_def processed_items_def split: awaited.splits)

lemma item_records_good:
  "r \<in> set (item_records kws page_num item) \<Longrightarrow>
     \<not> filtered_out kws (title r) (summary r) \<and> url r \<noteq> [] \<and> page r = page_num"
  using extract_item_Some [of kws item page_num]
  by (auto simp: item_records_def split: awaited.splits option.splits)

lemma page_records_good:
  "r \<in> set (page_records kws page_num items) \<Longrightarrow>
     \<not> filtered_out kws (title r) (summary r) \<and> url r \<noteq> [] \<and> page r = page_num"
  using item_records_good by (fastforce simp: page_records_def)

subsection \<open>The file during a run\<close>

text \<open>
  \<open>saved c bs\<close>: the batches \<open>bs\<close> were saved so far. There is no file before the
  first batch, and the file is \<open>document bs\<close> afterwards.
\<close>

definition saved :: "crawler \<Rightarrow> news list list \<Rightarrow> bool" where
  "saved c bs = (disk c = (if bs = [] then None else Some (document bs)))"

lemma save_results_saved:
  assumes "saved c bs" and "results c \<noteq> []"
  shows "save_results True c =
     Done (say (Saved True)
       (c\<lparr>has_filename := True, disk := Some (document (bs @ [results c])), results := []\<rparr>))"
proof (cases "bs = []")
  case True
  with assms show ?thesis
    using document_single [of "results c"] by (simp add: saved_def save_results_def)
next
  case False
  with assms have d: "disk c = Some (document bs)"
    by (simp add: saved_def)
  have "take (length (document bs) - 2) (document bs) @ '',\<newline>'' @ json_dump (results c) @ ''\<newline>]'' =
      document (bs @ [results c])"
    using document_snoc [OF False, of "results c"] by simp
  moreover have "\<not> length (document bs) < 2" "document bs \<noteq> []"
    using length_document [of bs] by auto
  ultimately show ?thesis
    using assms(2) by (simp add: save_results_def d)
qed

lemma save_results_overwrite:
  assumes "results c \<noteq> []"
  shows "save_results False c =
     Done (say (Saved False)
       (c\<lparr>has_filename := True, disk := Some (document [results c]), results := []\<rparr>))"
  using assms document_single [of "results c"] by (simp add: save_results_def)

lemma save_page_saved:
  assumes "saved c bs"
  shows "\<exists>c'. save_page n c = Done c' \<and>
           saved c' (if results c = [] then bs else bs @ [results c]) \<and>
           results c' = [] \<and> keywords c' = keywords c \<and>
           (has_filename c' \<longleftrightarrow> has_filename c \<or> results c \<noteq> [])"
proof (cases "results c = []")
  case True
  with assms show ?thesis
    by (simp add: save_page_def saved_def)
next
  case False
  have "saved (say (Saving (length (results c))) c) bs"
    using assms by (simp add: saved_def)
  from save_results_saved [OF this] False show ?thesis
    by (simp add: save_page_def saved_def)
qed

lemma turn_page_fields:
  assumes "turn_page pg n c = (go_on, c')"
  shows "keywords c' = keywords c" and "disk c' = disk c"
    and "has_filename c' = has_filename c" and "results c' = results c"
  using assms by (auto simp: turn_page_def split: if_splits awaited.splits option.splits)

lemma crawl_loop_exit: "\<not> n \<le> max_pages c \<Longrightarrow> crawl_loop b n c = Done c"
  by (simp add: crawl_loop.simps)

lemma crawl_loop_scrape_failed:
  "n \<le> max_pages c \<Longrightarrow> scrape_page (page_at b n) n (say (PageStart n) c) = (False, c1) \<Longrightarrow>
   crawl_loop b n c = Done c1"
  by (simp add: crawl_loop.simps)

lemma crawl_loop_save_raised:
  "n \<le> max_pages c \<Longrightarrow> scrape_page (page_at b n) n (say (PageStart n) c) = (True, c1) \<Longrightarrow>
   save_page n c1 = Raised e c2 \<Longrightarrow> crawl_loop b n c = Raised e c2"
  by (simp add: crawl_loop.simps)

lemma crawl_loop_break:
  "n \<le> max_pages c \<Longrightarrow> scrape_page (page_at b n) n (say (PageStart n) c) = (True, c1) \<Longrightarrow>
   save_page n c1 = Done c2 \<Longrightarrow> turn_page (page_at b n) n c2 = (False, c3) \<Longrightarrow>
   crawl_loop b n c = Done c3"
  by (simp add: crawl_loop.simps)

lemma crawl_loop_next:
  "n \<le> max_pages c \<Longrightarrow> scrape_page (page_at b n) n (say (PageStart n) c) = (True, c1) \<Longrightarrow>
   save_page n c1 = Done c2 \<Longrightarrow> turn_page (page_at b n) n c2 = (True, c3) \<Longrightarrow>
   crawl_loop b n c = crawl_loop b (n + 1) c3"
  by (simp add: crawl_loop.simps)

text \<open>A record is extracted from an item that the page of its number lists.\<close>

definition extracted_on :: "browser \<Rightarrow> string list \<Rightarrow> news \<Rightarrow> bool" where
  "extracted_on b kws r =
     (\<exists>items item. query_news_items (page_at b (page r)) = Returns items \<and>
        item \<in> set items \<and> extract_item kws item (page r) = Returns (Some r))"

text \<open>A record the crawler may save from page \<open>n\<close> on, under the keywords \<open>kws\<close>.\<close>

definition good_record :: "browser \<Rightarrow> string list \<Rightarrow> int \<Rightarrow> news \<Rightarrow> bool" where
  "good_record b kws n r =
     (\<not> filtered_out kws (title r) (summary r) \<and> url r \<noteq> [] \<and> n \<le> page r \<and>
      extracted_on b kws r)"

lemma good_record_mono: "good_record b kws (n + 1) r \<Longrightarrow> good_record b kws n r"
  by (simp add: good_record_def)

lemma page_records_source:
  assumes "r \<in> set (page_records kws page_num items)"
  shows "\<exists>item \<in> set items. extract_item kws item page_num = Returns (Some r)"
  using assms
  by (auto simp: page_records_def item_records_def split: awaited.splits option.splits)

lemma processed_items_listed:
  assumes "item \<in> set (processed_items pg)"
  shows "\<exists>items. query_news_items pg = Returns items \<and> item \<in> set items"
  using assms by (cases "query_news_items pg") (auto simp: processed_items_def)

lemma page_records_good_record:
  assumes "r \<in> set (page_records kws n (processed_items (page_at b n)))"
  shows "good_record b kws n r"
proof -
  from page_records_source [OF assms] obtain item
    where item: "item \<in> set (processed_items (page_at b n))"
      "extract_item kws item n = Returns (Some r)"
    by blast
  from processed_items_listed [OF item(1)] obtain items
    where "query_news_items (page_at b n) = Returns items" "item \<in> set items"
    by blast
  moreover from extract_item_Some [OF item(2)]
  have "\<not> filtered_out kws (title r) (summary r)" "url r \<noteq> []" "page r = n"
    by simp_all
  ultimately show ?thesis
    using item(2) by (auto simp: good_record_def extracted_on_def)
qed

text \<open>
  The loop invariant: from a state where the batches \<open>bs\<close> are saved and no result is
  pending, the loop returns normally, with some more batches saved; every new batch is
  non-empty and holds good records.
\<close>

lemma crawl_loop_saved:
  assumes "saved c bs" and "results c = []"
  shows "\<exists>c' bs'. crawl_loop b n c = Done c' \<and> saved c' (bs @ bs') \<and> results c' = [] \<and>
           keywords c' = keywords c \<and>
           (has_filename c' \<longleftrightarrow> has_filename c \<or> bs' \<noteq> []) \<and>
           (\<forall>batch \<in> set bs'. batch \<noteq> [] \<and> (\<forall>r \<in> set batch. good_record b (keywords c) n r))"
  using assms
proof (induction b n c arbitrary: bs rule: crawl_loop.induct)
  case (1 b n c)
  show ?case
  proof (cases "n \<le> max_pages c")
    case False
    with 1(2,3) show ?thesis
      by (intro exI [of _ c] exI [of _ "[]"]) (simp add: crawl_loop_exit)
  next
    case le: True
    obtain ok c1 where scr: "scrape_page (page_at b n) n (say (PageStart n) c) = (ok, c1)"
      by fastforce
    have c1: "keywords c1 = keywords c" "disk c1 = disk c" "has_filename c1 = has_filename c"
      using scrape_page_fields [OF scr] by simp_all
    have r1: "results c1 =
        (if ok then page_records (keywords c) n (processed_items (page_at b n)) else [])"
      using scrape_page_results [OF scr] 1(3) by simp
    show ?thesis
    proof (cases ok)
      case False
      with le scr have "crawl_loop b n c = Done c1"
        by (simp add: crawl_loop_scrape_failed)
      with False 1(2) c1 r1 show ?thesis
        by (intro exI [of _ c1] exI [of _ "[]"]) (simp add: saved_def)
    next
      case ok: True
      have good1: "\<forall>r \<in> set (results c1). good_record b (keywords c) n r"
        using r1 ok page_records_good_record [of _ "keywords c" n b] by simp
      define new where "new = (if results c1 = [] then [] else [results c1])"
      have "saved c1 bs"
        using 1(2) c1 by (simp add: saved_def)
      from save_page_saved [OF this, of n] obtain c2
        where sav: "save_page n c1 = Done c2"
          and s2': "saved c2 (if results c1 = [] then bs else bs @ [results c1])"
          and c2': "results c2 = []" "keywords c2 = keywords c1"
            "has_filename c2 \<longleftrightarrow> has_filename c1 \<or> results c1 \<noteq> []"
        by blast
      have s2: "saved c2 (bs @ new)"
        using s2' by (cases "results c1 = []") (simp_all add: new_def)
      have c2: "results c2 = []" "keywords c2 = keywords c"
        "has_filename c2 \<longleftrightarrow> has_filename c \<or> new \<noteq> []"
        using c2' c1 by (simp_all add: new_def)
      have new: "\<forall>batch \<in> set new. batch \<noteq> [] \<and> (\<forall>r \<in> set batch. good_record b (keywords c) n r)"
        using good1 by (simp add: new_def)
      obtain go_on c3 where trn: "turn_page (page_at b n) n c2 = (go_on, c3)"
        by fastforce
      have s3: "saved c3 (bs @ new)" and c3: "results c3 = []" "keywords c3 = keywords c"
        "has_filename c3 \<longleftrightarrow> has_filename c \<or> new \<noteq> []"
        using turn_page_fields [OF trn] s2 c2 by (simp_all add: saved_def)
      show ?thesis
      proof (cases go_on)
        case False
        with le scr ok sav trn have "crawl_loop b n c = Done c3"
          by (simp add: crawl_loop_break)
        with s3 c3 new show ?thesis
          by (intro exI [of _ c3] exI [of _ new]) simp
      next
        case go: True
        with le scr ok sav trn have eq: "crawl_loop b n c = crawl_loop b (n + 1) c3"
          by (simp add: crawl_loop_next)
        have okT: "ok = True" and goT: "go_on = True"
          using ok go by simp_all
        from "1.IH" [OF le scr [symmetric] okT sav trn [symmetric] goT s3 c3(1)]
        obtain c' bs' where c': "crawl_loop b (n + 1) c3 = Done c'" "saved c' ((bs @ new) @ bs')"
          "results c' = []" "keywords c' = keywords c3"
          "has_filename c' \<longleftrightarrow> has_filename c3 \<or> bs' \<noteq> []"
          "\<forall>batch \<in> set bs'. batch \<noteq> [] \<and> (\<forall>r \<in> set batch. good_record b (keywords c3) (n + 1) r)"
          by blast
        have "\<forall>batch \<in> set (new @ bs'). batch \<noteq> [] \<and>
            (\<forall>r \<in> set batch. good_record b (keywords c) n r)"
          using new c'(6) c3(2) good_record_mono by auto
        with eq c' c3 show ?thesis
          by (intro exI [of _ c'] exI [of _ "new @ bs'"]) auto
      qed
    qed
  qed
qed

subsection \<open>The whole run\<close>

lemma unit_awaited: "x \<noteq> Returns () \<longleftrightarrow> (\<exists>e. x = Raises e)"
  by (cases x) auto

text \<open>When the start page loads, \<^verbatim>\<open>run\<close> is the loop from page 1.\<close>

lemma run_loaded:
  assumes "goto_start b = Returns ()" and "wait_networkidle b = Returns ()"
    and "wait_news_item b = Returns ()"
  shows "run b c = crawl_loop b 1 c"
  using assms by (simp add: run_def)

lemma run_not_loaded:
  assumes "goto_start b \<noteq> Returns () \<or> wait_networkidle b \<noteq> Returns () \<or>
    wait_news_item b \<noteq> Returns ()"
  shows "\<exists>e. run b c = Raised e c"
  using assms by (auto simp: run_def unit_awaited split: awaited.splits)

lemma saved_new_crawler: "saved (new_crawler kws n None) []"
  by (simp add: saved_def new_crawler_def)

text \<open>
  A run that starts without an output file and loads the start page ends normally, with
  status 0; its file holds the batches of good records that were saved, and is not
  changed by the clean-up.
\<close>

lemma main_loaded:
  assumes "goto_start b = Returns ()" and "wait_networkidle b = Returns ()"
    and "wait_news_item b = Returns ()"
  shows "\<exists>c bs. main b kws n None = (0, c) \<and> saved c bs \<and> results c = [] \<and>
           (has_filename c \<longleftrightarrow> bs \<noteq> []) \<and>
           (\<forall>batch \<in> set bs. batch \<noteq> [] \<and> (\<forall>r \<in> set batch. good_record b kws 1 r))"
proof -
  from crawl_loop_saved [OF saved_new_crawler, of kws n b 1]
  obtain c bs where c: "crawl_loop b 1 (new_crawler kws n None) = Done c" "saved c bs"
    "results c = []" "has_filename c \<longleftrightarrow> bs \<noteq> []"
    "\<forall>batch \<in> set bs. batch \<noteq> [] \<and> (\<forall>r \<in> set batch. good_record b kws 1 r)"
    by (auto simp: new_crawler_def)
  show ?thesis
  proof (cases "bs = []")
    case True
    with c assms show ?thesis
      by (intro exI [of _ c] exI [of _ bs]) (simp add: main_def clean_up_def run_loaded)
  next
    case False
    with c have "disk c = Some (document bs)"
      by (simp add: saved_def)
    with c False assms have "main b kws n None = (0, c)"
      by (simp add: main_def clean_up_def run_loaded finalize_document)
    with c show ?thesis
      by blast
  qed
qed

text \<open>
  Claim C8. The run ends with a status other than 0 exactly when the start page does not
  load (one of the three awaited calls of lines 92 to 96 raises); the exception leaves
  \<^verbatim>\<open>run\<close> before anything is printed or written, so the file system is as it was and
  no file is created. The run starts without an output file.
\<close>

theorem initial_load_sole_abort:
  "(fst (main b kws n None) \<noteq> 0 \<longleftrightarrow>
      goto_start b \<noteq> Returns () \<or> wait_networkidle b \<noteq> Returns () \<or>
      wait_news_item b \<noteq> Returns ()) \<and>
   (goto_start b \<noteq> Returns () \<or> wait_networkidle b \<noteq> Returns () \<or>
      wait_news_item b \<noteq> Returns () \<longrightarrow>
      (\<exists>e. run b (new_crawler kws n d) = Raised e (new_crawler kws n d)) \<and>
      main b kws n d = (1, new_crawler kws n d) \<and>
      disk (snd (main b kws n None)) = None)"
proof (cases "goto_start b \<noteq> Returns () \<or> wait_networkidle b \<noteq> Returns () \<or>
    wait_news_item b \<noteq> Returns ()")
  case True
  have m: "main b kws n d' = (1, new_crawler kws n d')" for d'
  proof -
    obtain e where "run b (new_crawler kws n d') = Raised e (new_crawler kws n d')"
      using run_not_loaded [OF True] by blast
    then show ?thesis
      by (simp add: main_def)
  qed
  with True run_not_loaded [OF True, of "new_crawler kws n d"] show ?thesis
    by (simp add: new_crawler_def)
next
  case False
  then have "\<exists>c. main b kws n None = (0, c)"
    using main_loaded [of b kws n] by blast
  with False show ?thesis
    by auto
qed

text \<open>A browser whose start page never loads.\<close>

definition dead_browser :: browser where
  "dead_browser =
     \<lparr>goto_start = Raises PlaywrightTimeoutError, wait_networkidle = Returns (),
      wait_news_item = Returns (),
      page_at = (\<lambda>n. \<lparr>wait_news_list = Returns (), query_news_items = Returns [],
                       query_next = Returns None, finish_time = (\<lambda>i. 0)\<rparr>)\<rparr>"

theorem initial_load_sole_abort_witness:
  "goto_start dead_browser \<noteq> Returns () \<and>
   main dead_browser [''market''] 5 None = (1, new_crawler [''market''] 5 None) \<and>
   disk (snd (main dead_browser [''market''] 5 None)) = None"
proof -
  have "goto_start dead_browser \<noteq> Returns ()"
    by (simp add: dead_browser_def)
  with initial_load_sole_abort [of dead_browser "[''market'']" 5 None] show ?thesis
    by blast
qed

text \<open>
  Claim C6. When the start page loads and either \<open>max_pages\<close> is 0 or the list of the
  first page times out, the run ends with status 0, no page was processed (no line
  \<open>PageFound\<close> is printed), and there is no output file.
\<close>

theorem no_page_no_document:
  assumes "goto_start b = Returns ()" and "wait_networkidle b = Returns ()"
    and "wait_news_item b = Returns ()"
    and "n = 0 \<or> wait_news_list (page_at b 1) = Raises PlaywrightTimeoutError"
  shows "\<exists>c. main b kws n None = (0, c) \<and> disk c = None \<and> \<not> has_filename c \<and>
           results c = [] \<and> (\<forall>m k. PageFound m k \<notin> set (stdout c)) \<and>
           (n = 0 \<longrightarrow> stdout c = []) \<and>
           (1 \<le> n \<longrightarrow> stdout c = [PageStart 1, PageTimeout 1])"
proof (cases "1 \<le> n")
  case False
  then have "crawl_loop b 1 (new_crawler kws n None) = Done (new_crawler kws n None)"
    by (simp add: crawl_loop_exit new_crawler_def)
  with assms False show ?thesis
    by (simp add: main_def clean_up_def run_loaded new_crawler_def)
next
  case True
  with assms(4) have t: "wait_news_list (page_at b 1) = Raises PlaywrightTimeoutError"
    by simp
  let ?c = "say (PageTimeout 1) (say (PageStart 1) (new_crawler kws n None))"
  have "scrape_page (page_at b 1) 1 (say (PageStart 1) (new_crawler kws n None)) = (False, ?c)"
    by (simp add: scrape_page_def t page_failed_def)
  with True have "crawl_loop b 1 (new_crawler kws n None) = Done ?c"
    by (intro crawl_loop_scrape_failed) (simp_all add: new_crawler_def)
  with assms True show ?thesis
    by (simp add: main_def clean_up_def run_loaded new_crawler_def say_def)
qed

text \<open>A browser that loads the start page and then finds no list on any page.\<close>

definition stalled_browser :: browser where
  "stalled_browser =
     \<lparr>goto_start = Returns (), wait_networkidle = Returns (), wait_news_item = Returns (),
      page_at = (\<lambda>n. \<lparr>wait_news_list = Raises PlaywrightTimeoutError,
                       query_news_items = Returns [], query_next = Returns None, finish_time = (\<lambda>i. 0)\<rparr>)\<rparr>"

theorem no_page_no_document_witness:
  "goto_start stalled_browser = Returns () \<and> wait_networkidle stalled_browser = Returns () \<and>
   wait_news_item stalled_browser = Returns () \<and>
   wait_news_list (page_at stalled_browser 1) = Raises PlaywrightTimeoutError \<and>
   (\<exists>c. main stalled_browser [''market''] 5 None = (0, c) \<and> disk c = None \<and>
        stdout c = [PageStart 1, PageTimeout 1]) \<and>
   (\<exists>c. main stalled_browser [''market''] 0 None = (0, c) \<and> disk c = None \<and> stdout c = [])"
proof -
  have b: "goto_start stalled_browser = Returns ()" "wait_networkidle stalled_browser = Returns ()"
    "wait_news_item stalled_browser = Returns ()"
    "wait_news_list (page_at stalled_browser 1) = Raises PlaywrightTimeoutError"
    by (simp_all add: stalled_browser_def)
  from b no_page_no_document [of stalled_browser 5 "[''market'']"]
    no_page_no_document [of stalled_browser 0 "[''market'']"]
  show ?thesis
    by auto
qed

subsection \<open>Items that raise\<close>

text \<open>Whether extracting an item raises.\<close>

definition item_raises :: "string list \<Rightarrow> int \<Rightarrow> news_item \<Rightarrow> bool" where
  "item_raises kws page_num item =
     (case extract_item kws item page_num of Raises e \<Rightarrow> True | Returns x \<Rightarrow> False)"

lemma page_records_filter:
  "page_records kws page_num (filter (\<lambda>i. \<not> item_raises kws page_num i) items) =
   page_records kws page_num items"
  by (induction items)
    (auto simp: page_records_def item_records_def item_raises_def split: awaited.splits)

lemma mset_page_records:
  "mset (page_records kws page_num items) =
     sum_mset (image_mset (\<lambda>item. mset (item_records kws page_num item)) (mset items))"
  by (induction items) (simp_all add: page_records_def)

lemma mset_page_records_gather_order:
  "mset (page_records kws page_num (gather_order finish items)) =
     mset (page_records kws page_num items)"
  by (simp add: mset_page_records)

text \<open>
  Claim C9. An exception raised while one item is extracted is caught in
  \<^verbatim>\<open>process_news_item\<close>: a line is printed and nothing else changes. On a page whose
  list is found, \<^verbatim>\<open>scrape_page\<close> returns \<open>True\<close> whatever the items raise, and in
  whatever order the coroutines finish, the records it adds are those of the items taken
  one by one, each as often as it is extracted (the order is that of finishing): they
  are the same as on the page without the items that raise.
\<close>

theorem item_error_skipped:
  "(extract_item (keywords c) item page_num = Raises e \<longrightarrow>
      process_news_item item page_num c = say (ItemError e) c \<and>
      results (process_news_item item page_num c) = results c) \<and>
   (wait_news_list pg = Returns () \<and> query_news_items pg = Returns items \<longrightarrow>
      fst (scrape_page pg page_num c) \<and>
      (\<exists>new. results (snd (scrape_page pg page_num c)) = results c @ new \<and>
         mset new = mset (concat (map (item_records (keywords c) page_num) items)) \<and>
         mset new = mset (concat (map (item_records (keywords c) page_num)
           (filter (\<lambda>i. \<not> item_raises (keywords c) page_num i) items)))))"
proof (intro conjI impI)
  assume "extract_item (keywords c) item page_num = Raises e"
  then show "process_news_item item page_num c = say (ItemError e) c"
    and "results (process_news_item item page_num c) = results c"
    by (simp_all add: process_news_item_def say_def item_records_def)
next
  assume pg: "wait_news_list pg = Returns () \<and> query_news_items pg = Returns items"
  then show "fst (scrape_page pg page_num c)"
    by (simp add: scrape_page_def)
  let ?new = "page_records (keywords c) page_num (gather_order (finish_time pg) items)"
  have "results (snd (scrape_page pg page_num c)) = results c @ ?new"
    using pg by (simp add: scrape_page_def)
  moreover have "mset ?new = mset (concat (map (item_records (keywords c) page_num) items))"
    using mset_page_records_gather_order [of "keywords c" page_num "finish_time pg" items]
    by (simp add: page_records_def)
  moreover have "mset ?new = mset (concat (map (item_records (keywords c) page_num)
      (filter (\<lambda>i. \<not> item_raises (keywords c) page_num i) items)))"
    using mset_page_records_gather_order [of "keywords c" page_num "finish_time pg" items]
      page_records_filter [of "keywords c" page_num items]
    by (simp add: page_records_def)
  ultimately show "\<exists>new. results (snd (scrape_page pg page_num c)) = results c @ new \<and>
      mset new = mset (concat (map (item_records (keywords c) page_num) items)) \<and>
      mset new = mset (concat (map (item_records (keywords c) page_num)
        (filter (\<lambda>i. \<not> item_raises (keywords c) page_num i) items)))"
    by blast
qed

text \<open>
  Two more items: one whose title cannot be read, and one with a paragraph. A page lists
  the item with the paragraph first; its coroutine has one more awaited call and is the
  last to finish.
\<close>

definition broken_item :: news_item where
  "broken_item =
     \<lparr>query_a = Returns (Some \<lparr>a_text_content = Raises OtherException,
                                a_href = Returns (Some ''http://b'')\<rparr>),
      query_p = Returns None\<rparr>"

definition summary_item :: news_item where
  "summary_item =
     \<lparr>query_a = Returns (Some \<lparr>a_text_content = Returns (Some ''market down''),
                                a_href = Returns (Some ''http://c'')\<rparr>),
      query_p = Returns (Some (Returns (Some ''closing report'')))\<rparr>"

definition summary_record :: news where
  "summary_record =
     \<lparr>title = ''market down'', summary = ''closing report'', url = ''http://c'', page = 1\<rparr>"

definition gathered_page :: page_view where
  "gathered_page =
     \<lparr>wait_news_list = Returns (),
      query_news_items = Returns [summary_item, broken_item, market_item],
      query_next = Returns None,
      finish_time = (\<lambda>i. if i = 0 then 1 else 0)\<rparr>"

lemma extract_market_item:
  "extract_item [''market''] market_item 1 = Returns (Some market_record)"
  by (simp add: extract_item_def market_item_def market_record_def strip_or_empty_def
      strip_def is_space_def filtered_out_def)

lemma extract_broken_item: "extract_item [''market''] broken_item 1 = Raises OtherException"
  by (simp add: extract_item_def broken_item_def)

lemma extract_summary_item:
  "extract_item [''market''] summary_item 1 = Returns (Some summary_record)"
  by (simp add: extract_item_def summary_item_def summary_record_def strip_or_empty_def
      strip_def is_space_def filtered_out_def)

lemma gathered_page_order:
  "gather_order (finish_time gathered_page) [summary_item, broken_item, market_item] =
     [broken_item, market_item, summary_item]"
  by (simp add: gather_order_def gathered_page_def)

theorem item_error_skipped_witness:
  "extract_item [''market''] broken_item 1 = Raises OtherException \<and>
   process_news_item broken_item 1 (new_crawler [''market''] 5 None) =
     say (ItemError OtherException) (new_crawler [''market''] 5 None) \<and>
   wait_news_list gathered_page = Returns () \<and>
   query_news_items gathered_page = Returns [summary_item, broken_item, market_item] \<and>
   fst (scrape_page gathered_page 1 (new_crawler [''market''] 5 None)) \<and>
   results (snd (scrape_page gathered_page 1 (new_crawler [''market''] 5 None))) =
     [market_record, summary_record] \<and>
   mset (results (snd (scrape_page gathered_page 1 (new_crawler [''market''] 5 None)))) =
     mset [summary_record, market_record]"
proof -
  have k: "keywords (new_crawler [''market''] 5 None) = [''market'']"
    and r: "results (new_crawler [''market''] 5 None) = []"
    by (simp_all add: new_crawler_def)
  have pg: "wait_news_list gathered_page = Returns ()"
    "query_news_items gathered_page = Returns [summary_item, broken_item, market_item]"
    by (simp_all add: gathered_page_def)
  have recs: "item_records [''market''] 1 market_item = [market_record]"
    "item_records [''market''] 1 broken_item = []"
    "item_records [''market''] 1 summary_item = [summary_record]"
    by (simp_all add: item_records_def extract_market_item extract_broken_item
        extract_summary_item)
  have order: "results (snd (scrape_page gathered_page 1 (new_crawler [''market''] 5 None))) =
      [market_record, summary_record]"
    by (simp add: scrape_page_def pg gathered_page_order page_records_def recs k r)
  from item_error_skipped [of "new_crawler [''market''] 5 None" broken_item 1 OtherException
      gathered_page "[summary_item, broken_item, market_item]"]
  show ?thesis
    using pg order
    by (simp add: k r recs item_raises_def extract_broken_item extract_market_item
        extract_summary_item)
qed

subsection \<open>Turning the page\<close>

text \<open>The state an outcome leaves behind.\<close>

definition final_state :: "outcome \<Rightarrow> crawler" where
  "final_state out = (case out of Done c \<Rightarrow> c | Raised e c \<Rightarrow> c)"

lemma final_state_simps [simp]:
  "final_state (Done c) = c" "final_state (Raised e c) = c"
  by (simp_all add: final_state_def)

lemma stdout_process_news_item:
  "prefix (stdout c) (stdout (process_news_item item page_num c))"
  by (simp add: process_news_item_def split: awaited.splits option.splits)

lemma stdout_foldl_process:
  "prefix (stdout c) (stdout (foldl (\<lambda>s item. process_news_item item page_num s) c items))"
proof (induction items arbitrary: c)
  case Nil
  show ?case by simp
next
  case (Cons item items)
  from stdout_process_news_item [of c item page_num] Cons [of "process_news_item item page_num c"]
  show ?case by (auto intro: prefix_order.trans)
qed

lemma stdout_scrape_page:
  assumes "scrape_page pg page_num c = (ok, c')"
  shows "prefix (stdout c) (stdout c')"
proof -
  have "prefix (stdout c) (stdout (foldl (\<lambda>s item. process_news_item item page_num s)
      (say m c) items))" for m items
    using stdout_foldl_process [of "say m c" page_num items]
    by (auto intro: prefix_order.trans [of _ "stdout c @ [m]"])
  with assms show ?thesis
    by (auto simp: scrape_page_def split: awaited.splits)
qed

lemma stdout_save_results:
  "prefix (stdout c) (stdout (final_state (save_results incremental c)))"
  by (simp add: save_results_def Let_def)

lemma stdout_save_page: "prefix (stdout c) (stdout (final_state (save_page n c)))"
  using stdout_save_results [of "say (Saving (length (results c))) c" True]
  by (auto simp: save_page_def intro: prefix_order.trans [of _ "stdout c @ [m]" for m])

text \<open>What \<^verbatim>\<open>turn_page\<close> decides, and what it prints.\<close>

definition next_loaded :: "page_view \<Rightarrow> bool" where
  "next_loaded pg =
     (case query_next pg of
        Returns (Some next_btn) \<Rightarrow>
          click next_btn = Returns () \<and> load_after_click next_btn = Returns ()
      | _ \<Rightarrow> False)"

lemma turn_page_go_on:
  assumes "n < max_pages c" and "next_loaded pg"
  shows "turn_page pg n c = (True, c)"
  using assms
  by (auto simp: turn_page_def next_loaded_def split: awaited.splits option.splits)

lemma turn_page_stop:
  assumes "\<not> (n < max_pages c \<and> next_loaded pg)"
  shows "\<exists>extra. turn_page pg n c = (False, c\<lparr>stdout := stdout c @ extra\<rparr>) \<and>
           length extra \<le> 1 \<and> (\<forall>m. PageStart m \<notin> set extra)"
proof (cases "n < max_pages c")
  case False
  then have "turn_page pg n c = (False, c\<lparr>stdout := stdout c @ []\<rparr>)"
    by (simp add: turn_page_def)
  then show ?thesis
    by (intro exI [of _ "[]"]) simp
next
  case True
  with assms have "\<not> next_loaded pg"
    by simp
  then have "\<exists>m. turn_page pg n c = (False, say m c) \<and> (\<forall>k. m \<noteq> PageStart k)"
    using True
    by (auto simp: turn_page_def next_loaded_def next_failed_def unit_awaited
        split: awaited.splits option.splits)
  then obtain m where "turn_page pg n c = (False, c\<lparr>stdout := stdout c @ [m]\<rparr>)"
    and "\<forall>k. m \<noteq> PageStart k"
    by (auto simp: say_def)
  then show ?thesis
    by (intro exI [of _ "[m]"]) auto
qed

lemma stdout_crawl_loop: "prefix (stdout c) (stdout (final_state (crawl_loop b n c)))"
proof (induction b n c rule: crawl_loop.induct)
  case (1 b n c)
  show ?case
  proof (cases "n \<le> max_pages c")
    case False
    then show ?thesis by (simp add: crawl_loop_exit)
  next
    case le: True
    obtain ok c1 where scr: "scrape_page (page_at b n) n (say (PageStart n) c) = (ok, c1)"
      by fastforce
    have p1: "prefix (stdout c) (stdout c1)"
      using stdout_scrape_page [OF scr] by (auto intro: prefix_order.trans [of _ "stdout c @ [PageStart n]"])
    show ?thesis
    proof (cases ok)
      case False
      with le scr p1 show ?thesis by (simp add: crawl_loop_scrape_failed)
    next
      case ok: True
      show ?thesis
      proof (cases "save_page n c1")
        case (Raised e c2)
        with stdout_save_page [of c1 n] p1 le scr ok show ?thesis
          by (auto simp: crawl_loop_save_raised intro: prefix_order.trans)
      next
        case (Done c2)
        with stdout_save_page [of c1 n] p1 have p2: "prefix (stdout c) (stdout c2)"
          by (auto intro: prefix_order.trans)
        show ?thesis
        proof (cases "n < max_pages c2 \<and> next_loaded (page_at b n)")
          case False
          from turn_page_stop [OF False] obtain extra
            where "turn_page (page_at b n) n c2 = (False, c2\<lparr>stdout := stdout c2 @ extra\<rparr>)"
            by blast
          with le scr ok Done p2 show ?thesis
            by (auto simp: crawl_loop_break intro: prefix_order.trans)
        next
          case True
          then have trn: "turn_page (page_at b n) n c2 = (True, c2)"
            by (simp add: turn_page_go_on)
          have okT: "ok = True" using ok by simp
          from "1.IH" [OF le scr [symmetric] okT Done trn [symmetric] refl]
          have "prefix (stdout c2) (stdout (final_state (crawl_loop b (n + 1) c2)))" .
          with le scr ok Done trn p2 show ?thesis
            by (auto simp: crawl_loop_next intro: prefix_order.trans)
        qed
      qed
    qed
  qed
qed

lemma stdout_crawl_loop_start:
  assumes "n \<le> max_pages c"
  shows "prefix (stdout c @ [PageStart n]) (stdout (final_state (crawl_loop b n c)))"
proof -
  obtain ok c1 where scr: "scrape_page (page_at b n) n (say (PageStart n) c) = (ok, c1)"
    by fastforce
  have p1: "prefix (stdout c @ [PageStart n]) (stdout c1)"
    using stdout_scrape_page [OF scr] by simp
  show ?thesis
  proof (cases ok)
    case False
    with assms scr p1 show ?thesis by (simp add: crawl_loop_scrape_failed)
  next
    case ok: True
    show ?thesis
    proof (cases "save_page n c1")
      case (Raised e c2)
      with stdout_save_page [of c1 n] p1 assms scr ok show ?thesis
        by (auto simp: crawl_loop_save_raised intro: prefix_order.trans)
    next
      case (Done c2)
      with stdout_save_page [of c1 n] p1 have p2: "prefix (stdout c @ [PageStart n]) (stdout c2)"
        by (auto intro: prefix_order.trans)
      show ?thesis
      proof (cases "n < max_pages c2 \<and> next_loaded (page_at b n)")
        case False
        from turn_page_stop [OF False] obtain extra
          where "turn_page (page_at b n) n c2 = (False, c2\<lparr>stdout := stdout c2 @ extra\<rparr>)"
          by blast
        with assms scr ok Done p2 show ?thesis
          by (auto simp: crawl_loop_break intro: prefix_order.trans)
      next
        case True
        then have trn: "turn_page (page_at b n) n c2 = (True, c2)"
          by (simp add: turn_page_go_on)
        with assms scr ok Done p2 stdout_crawl_loop [of c2 b "n + 1"] show ?thesis
          by (auto simp: crawl_loop_next intro: prefix_order.trans)
      qed
    qed
  qed
qed

text \<open>
  Claim C7. After a page was scraped and saved, the loop goes on exactly when the page
  limit is not reached and the next-page button is found, clicked and followed by a
  loaded page; then \<^verbatim>\<open>current_page\<close> grows by one and the loop starts on that page
  (its line \<open>PageStart\<close> is printed). Otherwise the loop ends normally: the file and the
  results are as the save left them, at most one more line is printed, and no page is
  started any more.
\<close>

theorem pagination:
  assumes "n \<le> max_pages c"
    and "scrape_page (page_at b n) n (say (PageStart n) c) = (True, c1)"
    and "save_page n c1 = Done c2"
  shows "if n < max_pages c \<and> next_loaded (page_at b n)
         then crawl_loop b n c = crawl_loop b (n + 1) c2 \<and> n + 1 \<le> max_pages c2 \<and>
              prefix (stdout c2 @ [PageStart (n + 1)]) (stdout (final_state (crawl_loop b n c)))
         else \<exists>extra. crawl_loop b n c = Done (c2\<lparr>stdout := stdout c2 @ extra\<rparr>) \<and>
                disk (final_state (crawl_loop b n c)) = disk c2 \<and>
                results (final_state (crawl_loop b n c)) = results c2 \<and>
                length extra \<le> 1 \<and> (\<forall>m. PageStart m \<notin> set extra)"
proof -
  have mp: "max_pages c2 = max_pages c"
    using max_pages_scrape_page [OF assms(2)] max_pages_save_page [OF assms(3)] by simp
  show ?thesis
  proof (cases "n < max_pages c \<and> next_loaded (page_at b n)")
    case True
    then have trn: "turn_page (page_at b n) n c2 = (True, c2)"
      by (simp add: turn_page_go_on mp)
    with assms have eq: "crawl_loop b n c = crawl_loop b (n + 1) c2"
      by (simp add: crawl_loop_next)
    moreover from True have le: "n + 1 \<le> max_pages c2"
      by (simp add: mp)
    moreover have "prefix (stdout c2 @ [PageStart (n + 1)])
        (stdout (final_state (crawl_loop b (n + 1) c2)))"
      using le by (rule stdout_crawl_loop_start)
    ultimately show ?thesis
      using True by simp
  next
    case False
    then have "\<not> (n < max_pages c2 \<and> next_loaded (page_at b n))"
      by (simp add: mp)
    from turn_page_stop [OF this] obtain extra
      where trn: "turn_page (page_at b n) n c2 = (False, c2\<lparr>stdout := stdout c2 @ extra\<rparr>)"
        and extra: "length extra \<le> 1" "\<forall>m. PageStart m \<notin> set extra"
      by blast
    from assms trn have "crawl_loop b n c = Done (c2\<lparr>stdout := stdout c2 @ extra\<rparr>)"
      by (simp add: crawl_loop_break)
    with extra False show ?thesis
      by auto
  qed
qed

text \<open>
  Two browsers whose pages list no item: on the first no page has a next-page button, on
  the second only page 1 has one.
\<close>

definition lone_browser :: browser where
  "lone_browser =
     \<lparr>goto_start = Returns (), wait_networkidle = Returns (), wait_news_item = Returns (),
      page_at = (\<lambda>n. \<lparr>wait_news_list = Returns (), query_news_items = Returns [],
                       query_next = Returns None, finish_time = (\<lambda>i. 0)\<rparr>)\<rparr>"

definition two_page_browser :: browser where
  "two_page_browser =
     \<lparr>goto_start = Returns (), wait_networkidle = Returns (), wait_news_item = Returns (),
      page_at = (\<lambda>n. \<lparr>wait_news_list = Returns (), query_news_items = Returns [],
                       query_next = (if n = 1
                         then Returns (Some \<lparr>click = Returns (), load_after_click = Returns ()\<rparr>)
                         else Returns None),
                       finish_time = (\<lambda>i. 0)\<rparr>)\<rparr>"

text \<open>The crawler before page 1, after page 1 was scraped, and after the save.\<close>

definition before_page :: crawler where
  "before_page = new_crawler [''market''] 5 None"

definition after_scrape :: crawler where
  "after_scrape = say (PageFound 1 0) (say (PageStart 1) before_page)"

definition after_save :: crawler where
  "after_save = say (NoMatchOnPage 1) after_scrape"

theorem pagination_witness:
  "1 \<le> max_pages before_page \<and>
   scrape_page (page_at lone_browser 1) 1 (say (PageStart 1) before_page) = (True, after_scrape) \<and>
   save_page 1 after_scrape = Done after_save \<and>
   \<not> next_loaded (page_at lone_browser 1) \<and>
   (\<exists>extra. crawl_loop lone_browser 1 before_page =
        Done (after_save\<lparr>stdout := stdout after_save @ extra\<rparr>) \<and>
      length extra \<le> 1 \<and> (\<forall>m. PageStart m \<notin> set extra)) \<and>
   scrape_page (page_at two_page_browser 1) 1 (say (PageStart 1) before_page) =
     (True, after_scrape) \<and>
   next_loaded (page_at two_page_browser 1) \<and>
   crawl_loop two_page_browser 1 before_page = crawl_loop two_page_browser 2 after_save \<and>
   prefix (stdout after_save @ [PageStart 2])
     (stdout (final_state (crawl_loop two_page_browser 1 before_page)))"
proof -
  have mp: "max_pages before_page = 5"
    by (simp add: before_page_def new_crawler_def)
  have scr1: "scrape_page (page_at lone_browser 1) 1 (say (PageStart 1) before_page) =
      (True, after_scrape)"
    by (simp add: scrape_page_def lone_browser_def after_scrape_def)
  have scr2: "scrape_page (page_at two_page_browser 1) 1 (say (PageStart 1) before_page) =
      (True, after_scrape)"
    by (simp add: scrape_page_def two_page_browser_def after_scrape_def)
  have sav: "save_page 1 after_scrape = Done after_save"
    by (simp add: save_page_def after_save_def after_scrape_def before_page_def new_crawler_def)
  have n1: "\<not> next_loaded (page_at lone_browser 1)"
    by (simp add: next_loaded_def lone_browser_def)
  have n2: "next_loaded (page_at two_page_browser 1)"
    by (simp add: next_loaded_def two_page_browser_def)
  from pagination [of 1 before_page lone_browser after_scrape after_save]
    pagination [of 1 before_page two_page_browser after_scrape after_save]
  show ?thesis
    using mp scr1 scr2 sav n1 n2 by auto
qed

subsection \<open>The file after every save\<close>

text \<open>
  The states of a crawler in use: a new crawler in a world without its output file, and
  what the methods of the class make of a state in use (an item is processed, a line is
  printed, the results are saved).
\<close>

inductive reachable :: "crawler \<Rightarrow> bool" where
  fresh: "reachable (new_crawler kws n None)"
| item: "reachable c \<Longrightarrow> reachable (process_news_item item page_num c)"
| print: "reachable c \<Longrightarrow> reachable (say m c)"
| save: "reachable c \<Longrightarrow> reachable (final_state (save_results incremental c))"

lemma save_results_any:
  assumes "saved c bs"
  shows "\<exists>c' bs'. save_results incremental c = Done c' \<and> saved c' bs' \<and>
           (results c \<noteq> [] \<longrightarrow> bs' \<noteq> [])"
proof (cases "results c = []")
  case True
  with assms show ?thesis
    by (intro exI [of _ "say NoResults c"] exI [of _ bs]) (simp add: save_results_def saved_def)
next
  case False
  show ?thesis
  proof (cases incremental)
    case True
    with save_results_saved [OF assms False] show ?thesis
      by (intro exI [of _ "final_state (save_results True c)"] exI [of _ "bs @ [results c]"])
        (simp add: saved_def say_def)
  next
    case False
    with save_results_overwrite [OF \<open>results c \<noteq> []\<close>] show ?thesis
      by (intro exI [of _ "final_state (save_results False c)"] exI [of _ "[results c]"])
        (simp add: saved_def say_def)
  qed
qed

lemma reachable_saved: "reachable c \<Longrightarrow> \<exists>bs. saved c bs"
proof (induction c rule: reachable.induct)
  case (fresh kws n)
  show ?case using saved_new_crawler by blast
next
  case (item c item page_num)
  then show ?case by (auto simp: saved_def)
next
  case (print c m)
  then show ?case by (auto simp: saved_def)
next
  case (save c incremental)
  then obtain bs where "saved c bs" by blast
  from save_results_any [OF this, of incremental] show ?case
    by auto
qed

text \<open>Every state of a run is such a state.\<close>

lemma reachable_foldl_process:
  "reachable c \<Longrightarrow> reachable (foldl (\<lambda>s item. process_news_item item page_num s) c items)"
  by (induction items arbitrary: c) (simp_all add: reachable.item)

lemma reachable_scrape_page:
  assumes "reachable c" and "scrape_page pg page_num c = (ok, c')"
  shows "reachable c'"
  using assms
  by (auto simp: scrape_page_def split: awaited.splits
      intro: reachable.print reachable_foldl_process)

lemma reachable_save_page: "reachable c \<Longrightarrow> reachable (final_state (save_page n c))"
  by (simp add: save_page_def reachable.print reachable.save)

lemma reachable_turn_page:
  assumes "reachable c" and "turn_page pg n c = (go_on, c')"
  shows "reachable c'"
  using assms
  by (auto simp: turn_page_def split: if_splits awaited.splits option.splits
      intro: reachable.print)

lemma reachable_crawl_loop:
  "reachable c \<Longrightarrow> reachable (final_state (crawl_loop b n c))"
proof (induction b n c rule: crawl_loop.induct)
  case (1 b n c)
  show ?case
  proof (cases "n \<le> max_pages c")
    case False
    with 1(2) show ?thesis by (simp add: crawl_loop_exit)
  next
    case le: True
    obtain ok c1 where scr: "scrape_page (page_at b n) n (say (PageStart n) c) = (ok, c1)"
      by fastforce
    have r1: "reachable c1"
      using reachable_scrape_page [OF _ scr] 1(2) by (simp add: reachable.print)
    show ?thesis
    proof (cases ok)
      case False
      with le scr r1 show ?thesis by (simp add: crawl_loop_scrape_failed)
    next
      case ok: True
      show ?thesis
      proof (cases "save_page n c1")
        case (Raised e c2)
        with reachable_save_page [OF r1, of n] le scr ok show ?thesis
          by (simp add: crawl_loop_save_raised)
      next
        case (Done c2)
        with reachable_save_page [OF r1, of n] have r2: "reachable c2"
          by simp
        obtain go_on c3 where trn: "turn_page (page_at b n) n c2 = (go_on, c3)"
          by fastforce
        have r3: "reachable c3"
          using reachable_turn_page [OF r2 trn] .
        show ?thesis
        proof (cases go_on)
          case False
          with le scr ok Done trn r3 show ?thesis
            by (simp add: crawl_loop_break)
        next
          case True
          then have goT: "go_on = True" by simp
          have okT: "ok = True" using ok by simp
          from "1.IH" [OF le scr [symmetric] okT Done trn [symmetric] goT r3]
          show ?thesis
            using le scr ok Done trn True by (simp add: crawl_loop_next)
        qed
      qed
    qed
  qed
qed

lemma reachable_run: "reachable (final_state (run b (new_crawler kws n None)))"
  using reachable_crawl_loop [of "new_crawler kws n None" b 1]
  by (auto simp: run_def reachable.fresh split: awaited.splits)

text \<open>
  Claim C4. In a run that starts without an output file, every call of
  \<^verbatim>\<open>save_results\<close> returns normally, and the file it leaves, if there is one, ends with
  a closing bracket and is JSON text. There is a file as soon as a call had results to
  save.
\<close>

theorem file_is_json_after_save:
  assumes "reachable c"
  shows "\<exists>c'. save_results incremental c = Done c' \<and> reachable c' \<and>
           (results c \<noteq> [] \<longrightarrow> disk c' \<noteq> None) \<and>
           (\<forall>d. disk c' = Some d \<longrightarrow>
                d \<noteq> [] \<and> last d = CHR '']'' \<and> (\<exists>v. json_loads d = Some v))"
proof -
  from reachable_saved [OF assms] obtain bs where "saved c bs"
    by blast
  from save_results_any [OF this, of incremental] obtain c' bs'
    where c': "save_results incremental c = Done c'" "saved c' bs'"
      "results c \<noteq> [] \<longrightarrow> bs' \<noteq> []"
    by blast
  have "reachable c'"
    using reachable.save [OF assms, of incremental] c'(1) by simp
  moreover have "d \<noteq> [] \<and> last d = CHR '']'' \<and> (\<exists>v. json_loads d = Some v)"
    if "disk c' = Some d" for d
  proof -
    from that c'(2) have "d = document bs'"
      by (auto simp: saved_def split: if_splits)
    then show ?thesis
      using length_document [of bs'] last_document [of bs'] json_loads_document [of bs']
      by auto
  qed
  ultimately show ?thesis
    using c' by (auto simp: saved_def)
qed

theorem file_is_json_after_save_witness:
  "reachable (process_news_item market_item 1 (new_crawler [''market''] 5 None)) \<and>
   results (process_news_item market_item 1 (new_crawler [''market''] 5 None)) \<noteq> [] \<and>
   (\<exists>c' d. save_results True (process_news_item market_item 1 (new_crawler [''market''] 5 None)) =
        Done c' \<and>
      disk c' = Some d \<and> last d = CHR '']'' \<and> (\<exists>v. json_loads d = Some v))"
proof -
  have r: "reachable (process_news_item market_item 1 (new_crawler [''market''] 5 None))"
    by (intro reachable.item reachable.fresh)
  have "results (process_news_item market_item 1 (new_crawler [''market''] 5 None)) =
      [market_record]"
    by (simp add: item_records_def extract_market_item new_crawler_def)
  with file_is_json_after_save [OF r, of True] show ?thesis
    using r by auto
qed

subsection \<open>Batches, saved one after the other\<close>

text \<open>
  The store as the specification describes it: each batch in turn becomes the results of
  the crawler and is saved with \<^verbatim>\<open>save_results(incremental=True)\<close>, as the loop of
  \<^verbatim>\<open>run\<close> does after each page.
\<close>

fun save_batches :: "news list list \<Rightarrow> crawler \<Rightarrow> outcome" where
  "save_batches [] c = Done c"
| "save_batches (batch # bs) c =
     (case save_results True (c\<lparr>results := batch\<rparr>) of
        Done c' \<Rightarrow> save_batches bs c'
      | Raised e c' \<Rightarrow> Raised e c')"

text \<open>The elements of an array.\<close>

definition elements :: "json \<Rightarrow> json list" where
  "elements v = (case v of JArr vs \<Rightarrow> vs | _ \<Rightarrow> [])"

lemma save_batches_saved:
  assumes "saved c bs0" and "\<forall>batch \<in> set bs. batch \<noteq> []"
  shows "\<exists>c'. save_batches bs c = Done c' \<and> saved c' (bs0 @ bs) \<and>
           (has_filename c' \<longleftrightarrow> has_filename c \<or> bs \<noteq> [])"
  using assms
proof (induction bs arbitrary: c bs0)
  case Nil
  then show ?case by simp
next
  case (Cons batch bs)
  let ?c = "c\<lparr>results := batch\<rparr>"
  let ?c' = "say (Saved True)
    (?c\<lparr>has_filename := True, disk := Some (document (bs0 @ [batch])), results := []\<rparr>)"
  have "saved ?c bs0" and "results ?c \<noteq> []"
    using Cons.prems by (simp_all add: saved_def)
  from save_results_saved [OF this] have s: "save_results True ?c = Done ?c'"
    by simp
  have "saved ?c' (bs0 @ [batch])"
    by (simp add: saved_def)
  from Cons.IH [OF this] Cons.prems(2) obtain c''
    where "save_batches bs ?c' = Done c''" "saved c'' ((bs0 @ [batch]) @ bs)"
      "has_filename c'' \<longleftrightarrow> has_filename ?c' \<or> bs \<noteq> []"
    by auto
  with s show ?case
    by (intro exI [of _ c'']) (simp add: say_def)
qed

declare save_batches.simps [simp del]

lemma elements_batches_json:
  "concat (map elements (elements (batches_json bs))) = map news_json (concat bs)"
  by (induction bs) (simp_all add: batches_json_def elements_def)

lemma saved_clean_up:
  assumes "saved c bs" and "has_filename c \<longleftrightarrow> bs \<noteq> []"
  shows "clean_up c = (0, c)"
proof (cases "bs = []")
  case True
  with assms show ?thesis by (simp add: clean_up_def)
next
  case False
  with assms have "disk c = Some (document bs)" "has_filename c"
    by (simp_all add: saved_def)
  then show ?thesis
    by (simp add: clean_up_def finalize_document)
qed

text \<open>
  Claim C1, as amended. After one or more non-empty batches were saved, starting without
  a file, and the clean-up of \<^verbatim>\<open>main\<close> has run, the file is JSON text for an array
  that has one element for each batch, in the order of the batches; each element is the
  array of the records of its batch, in their order. So the elements of the elements are
  the records of all batches in order, and their number is the sum of the lengths of
  the batches.
\<close>

theorem batches_saved_as_nested_arrays:
  assumes "disk c = None" and "bs \<noteq> []" and "\<forall>batch \<in> set bs. batch \<noteq> []"
  shows "\<exists>c' c'' d. save_batches bs c = Done c' \<and> clean_up c' = (0, c'') \<and>
           disk c'' = Some d \<and>
           json_loads d = Some (JArr (map (\<lambda>batch. JArr (map news_json batch)) bs)) \<and>
           concat (map elements (elements (the (json_loads d)))) = map news_json (concat bs) \<and>
           length (concat (map elements (elements (the (json_loads d))))) =
             sum_list (map length bs)"
proof -
  have "saved c []"
    using assms(1) by (simp add: saved_def)
  from save_batches_saved [OF this assms(3)] obtain c'
    where c': "save_batches bs c = Done c'" "saved c' bs" "has_filename c'"
    using assms(2) by auto
  then have d: "disk c' = Some (document bs)" and "clean_up c' = (0, c')"
    using assms(2) saved_clean_up [of c' bs] by (simp_all add: saved_def)
  moreover have "json_loads (document bs) = Some (batches_json bs)"
    by (rule json_loads_document)
  moreover have "length (map news_json (concat bs)) = sum_list (map length bs)"
    by (simp add: length_concat)
  ultimately show ?thesis
    using c'(1) elements_batches_json [of bs]
    by (intro exI [of _ c'] exI [of _ "document bs"]) (simp add: batches_json_def)
qed

theorem batches_saved_as_nested_arrays_witness:
  "disk before_page = None \<and>
   (\<exists>c' c'' d. save_batches [[market_record], [market_record, market_record]] before_page =
        Done c' \<and>
      clean_up c' = (0, c'') \<and> disk c'' = Some d \<and>
      json_loads d = Some (JArr [JArr [news_json market_record],
        JArr [news_json market_record, news_json market_record]]) \<and>
      length (concat (map elements (elements (the (json_loads d))))) = 3)"
proof -
  have "disk before_page = None"
    by (simp add: before_page_def new_crawler_def)
  with batches_saved_as_nested_arrays
    [of before_page "[[market_record], [market_record, market_record]]"]
  show ?thesis
    by (auto simp: eval_nat_numeral)
qed

text \<open>
  Claim C1 as the specification states it fails already for one batch of one record: the
  file is read as an array that holds the array of the batch, not as the array of the
  batch.
\<close>

theorem flat_array_counterexample:
  "map_option json_loads
     (disk (snd (clean_up (final_state (save_batches [[market_record]] before_page))))) =
     Some (Some (JArr [JArr [news_json market_record]])) \<and>
   map_option json_loads
     (disk (snd (clean_up (final_state (save_batches [[market_record]] before_page))))) \<noteq>
     Some (Some (JArr [news_json market_record]))"
proof -
  have "saved before_page []"
    by (simp add: saved_def before_page_def new_crawler_def)
  from save_batches_saved [OF this, of "[[market_record]]"] obtain c'
    where c': "save_batches [[market_record]] before_page = Done c'"
      "saved c' [[market_record]]" "has_filename c'"
    by auto
  then have "clean_up c' = (0, c')" "disk c' = Some (document [[market_record]])"
    using saved_clean_up [of c' "[[market_record]]"] by (simp_all add: saved_def)
  with c'(1) show ?thesis
    by (simp add: json_loads_document batches_json_def news_json_def)
qed

text \<open>
  Claim C10. After one or more non-empty batches were saved, starting without a file,
  the text of a comma, a line break and a closing bracket occurs nowhere in the file. So
  the clean-up of \<^verbatim>\<open>main\<close> writes the file back as it was, and the file is still read
  as an array of one array for each batch, which is not the array of all records.
\<close>

theorem clean_up_changes_nothing:
  assumes "disk c = None" and "bs \<noteq> []" and "\<forall>batch \<in> set bs. batch \<noteq> []"
  shows "\<exists>c' d. save_batches bs c = Done c' \<and> disk c' = Some d \<and>
           \<not> py_in '',\<newline>]'' d \<and> \<not> is_substring '',\<newline>]'' d \<and>
           finalize d = d \<and> clean_up c' = (0, c') \<and>
           json_loads d = Some (JArr (map (\<lambda>batch. JArr (map news_json batch)) bs)) \<and>
           json_loads d \<noteq> Some (JArr (map news_json (concat bs)))"
proof -
  have "saved c []"
    using assms(1) by (simp add: saved_def)
  from save_batches_saved [OF this assms(3)] obtain c'
    where c': "save_batches bs c = Done c'" "saved c' bs" "has_filename c'"
    using assms(2) by auto
  then have d: "disk c' = Some (document bs)" and cu: "clean_up c' = (0, c')"
    using assms(2) saved_clean_up [of c' bs] by (simp_all add: saved_def)
  obtain b bs' where bs: "bs = b # bs'"
    using assms(2) by (cases bs) auto
  with assms(3) obtain r rs where "b = r # rs"
    by (cases b) auto
  with bs have "batches_json bs \<noteq> JArr (map news_json (concat bs))"
    by (simp add: batches_json_def news_json_def)
  then show ?thesis
    using c'(1) d cu document_no_artifact [of bs] finalize_document [of bs]
      json_loads_document [of bs]
    by (intro exI [of _ c'] exI [of _ "document bs"])
      (simp add: batches_json_def py_in_iff_substring [symmetric])
qed

theorem clean_up_changes_nothing_witness:
  "disk before_page = None \<and>
   (\<exists>c' d. save_batches [[market_record], [market_record]] before_page = Done c' \<and>
      disk c' = Some d \<and> \<not> py_in '',\<newline>]'' d \<and> finalize d = d \<and>
      json_loads d = Some (JArr [JArr [news_json market_record], JArr [news_json market_record]]) \<and>
      json_loads d \<noteq> Some (JArr [news_json market_record, news_json market_record]))"
proof -
  have "disk before_page = None"
    by (simp add: before_page_def new_crawler_def)
  with clean_up_changes_nothing [of before_page "[[market_record], [market_record]]"]
  show ?thesis
    by auto
qed

subsection \<open>The records of a run\<close>

lemma main_not_loaded:
  assumes "\<not> (goto_start b = Returns () \<and> wait_networkidle b = Returns () \<and>
    wait_news_item b = Returns ())"
  shows "main b kws n d = (1, new_crawler kws n d)"
proof -
  obtain e where "run b (new_crawler kws n d) = Raised e (new_crawler kws n d)"
    using run_not_loaded [of b] assms by blast
  then show ?thesis
    by (simp add: main_def)
qed

lemma extract_item_link:
  assumes "extract_item kws item page_num = Returns (Some r)"
  shows "\<exists>a t. query_a item = Returns (Some a) \<and> a_text_content a = Returns t \<and>
           a_href a = Returns (Some (url r)) \<and> title r = strip_or_empty t"
  using assms
  by (auto simp: extract_item_def split: awaited.splits option.splits if_splits)

lemma good_record_link:
  assumes "good_record b kws n r"
  shows "\<exists>items item a t. query_news_items (page_at b (page r)) = Returns items \<and>
           item \<in> set items \<and> query_a item = Returns (Some a) \<and>
           a_text_content a = Returns t \<and> a_href a = Returns (Some (url r)) \<and>
           title r = strip_or_empty t"
proof -
  from assms obtain items item
    where "query_news_items (page_at b (page r)) = Returns items" "item \<in> set items"
      "extract_item kws item (page r) = Returns (Some r)"
    by (auto simp: good_record_def extracted_on_def)
  with extract_item_link [of kws item "page r" r] show ?thesis
    by blast
qed

text \<open>
  Claim C3, as amended. In a run that starts without an output file, the file at the end
  is missing or holds batches of records; every record in it has a non-empty url and a
  page number of at least 1, and passed the keyword test. Its title is the stripped text
  of a link: the page of its number lists an item whose link has the url of the record
  and, stripped, the text of the title (the empty title when the link has no text).
\<close>

theorem persisted_records:
  "\<exists>bs. disk (snd (main b kws n None)) = (if bs = [] then None else Some (document bs)) \<and>
        json_loads (document bs) = Some (JArr (map (\<lambda>batch. JArr (map news_json batch)) bs)) \<and>
        (\<forall>batch \<in> set bs. \<forall>r \<in> set batch.
           url r \<noteq> [] \<and> 1 \<le> page r \<and> \<not> filtered_out kws (title r) (summary r) \<and>
           (\<exists>items item a t. query_news_items (page_at b (page r)) = Returns items \<and>
              item \<in> set items \<and> query_a item = Returns (Some a) \<and>
              a_text_content a = Returns t \<and> a_href a = Returns (Some (url r)) \<and>
              title r = strip_or_empty t))"
proof (cases "goto_start b = Returns () \<and> wait_networkidle b = Returns () \<and>
    wait_news_item b = Returns ()")
  case True
  from main_loaded [of b kws n] True obtain c bs
    where c: "main b kws n None = (0, c)" "saved c bs"
      "\<forall>batch \<in> set bs. batch \<noteq> [] \<and> (\<forall>r \<in> set batch. good_record b kws 1 r)"
    by blast
  have "url r \<noteq> [] \<and> 1 \<le> page r \<and> \<not> filtered_out kws (title r) (summary r) \<and>
      (\<exists>items item a t. query_news_items (page_at b (page r)) = Returns items \<and>
         item \<in> set items \<and> query_a item = Returns (Some a) \<and>
         a_text_content a = Returns t \<and> a_href a = Returns (Some (url r)) \<and>
         title r = strip_or_empty t)"
    if "batch \<in> set bs" "r \<in> set batch" for batch r
  proof -
    from that c(3) have g: "good_record b kws 1 r"
      by blast
    from good_record_link [OF g] g show ?thesis
      by (simp add: good_record_def)
  qed
  with c(1,2) show ?thesis
    using json_loads_document [of bs]
    by (intro exI [of _ bs]) (simp add: saved_def batches_json_def)
next
  case False
  then have "main b kws n None = (1, new_crawler kws n None)"
    by (rule main_not_loaded)
  then show ?thesis
    using json_loads_document [of "[]"]
    by (intro exI [of _ "[]"]) (simp add: new_crawler_def batches_json_def)
qed

text \<open>A run of one page that lists items with records to save.\<close>

lemma main_single_page:
  assumes "goto_start b = Returns ()" and "wait_networkidle b = Returns ()"
    and "wait_news_item b = Returns ()"
    and "wait_news_list (page_at b 1) = Returns ()"
    and "query_news_items (page_at b 1) = Returns items"
    and "page_records kws 1 (processed_items (page_at b 1)) \<noteq> []"
  shows "disk (snd (main b kws 1 None)) =
     Some (document [page_records kws 1 (processed_items (page_at b 1))])"
proof -
  let ?c = "new_crawler kws 1 None"
  let ?recs = "page_records kws 1 (processed_items (page_at b 1))"
  obtain ok c1 where scr: "scrape_page (page_at b 1) 1 (say (PageStart 1) ?c) = (ok, c1)"
    by fastforce
  have ok: "ok"
    using scr assms(4,5) by (auto simp: scrape_page_def)
  have c1: "disk c1 = None" "results c1 = ?recs"
    using scrape_page_fields(2) [OF scr] scrape_page_results [OF scr] ok assms(5)
    by (simp_all add: new_crawler_def)
  then have "saved c1 []"
    by (simp add: saved_def)
  from save_page_saved [OF this, of 1] obtain c2
    where sav: "save_page 1 c1 = Done c2" and c2: "saved c2 [?recs]" "has_filename c2"
    using c1 assms(6) by auto
  have "max_pages c2 = 1"
    using max_pages_scrape_page [OF scr] max_pages_save_page [OF sav]
    by (simp add: new_crawler_def)
  then have "\<not> (1 < max_pages c2 \<and> next_loaded (page_at b 1))"
    by simp
  from turn_page_stop [OF this] obtain extra
    where trn: "turn_page (page_at b 1) 1 c2 = (False, c2\<lparr>stdout := stdout c2 @ extra\<rparr>)"
    by blast
  let ?c3 = "c2\<lparr>stdout := stdout c2 @ extra\<rparr>"
  have "crawl_loop b 1 ?c = Done ?c3"
    using scr ok sav trn
    by (intro crawl_loop_break [of 1 ?c b c1 c2]) (simp_all add: new_crawler_def)
  moreover have "saved ?c3 [?recs]" "has_filename ?c3"
    using c2 by (simp_all add: saved_def)
  then have "clean_up ?c3 = (0, ?c3)"
    using saved_clean_up [of ?c3 "[?recs]"] by simp
  ultimately have "main b kws 1 None = (0, ?c3)"
    using assms(1-3) by (simp add: main_def run_loaded)
  with c2(1) show ?thesis
    by (simp add: saved_def)
qed

text \<open>
  An item whose link has only white space as text, and a summary with the keyword; a
  browser whose pages list this item.
\<close>

definition untitled_item :: news_item where
  "untitled_item =
     \<lparr>query_a = Returns (Some \<lparr>a_text_content = Returns (Some ''  ''),
                                a_href = Returns (Some ''http://a'')\<rparr>),
      query_p = Returns (Some (Returns (Some ''market news'')))\<rparr>"

definition untitled_browser :: browser where
  "untitled_browser =
     \<lparr>goto_start = Returns (), wait_networkidle = Returns (), wait_news_item = Returns (),
      page_at = (\<lambda>n. \<lparr>wait_news_list = Returns (), query_news_items = Returns [untitled_item],
                       query_next = Returns None, finish_time = (\<lambda>i. 0)\<rparr>)\<rparr>"

lemma extract_untitled_item:
  "extract_item [''market''] untitled_item 1 =
     Returns (Some \<lparr>title = [], summary = ''market news'', url = ''http://a'', page = 1\<rparr>)"
  by (simp add: extract_item_def untitled_item_def strip_or_empty_def strip_def is_space_def
      filtered_out_def)

lemma main_untitled_browser:
  "disk (snd (main untitled_browser [''market''] 1 None)) =
     Some (document [[\<lparr>title = [], summary = ''market news'', url = ''http://a'', page = 1\<rparr>]])"
proof -
  have "page_records [''market''] 1 [untitled_item] =
      [\<lparr>title = [], summary = ''market news'', url = ''http://a'', page = 1\<rparr>]"
    by (simp add: page_records_def item_records_def extract_untitled_item)
  with main_single_page [of untitled_browser "[untitled_item]" "[''market'']"]
  show ?thesis
    by (simp add: untitled_browser_def processed_items_def)
qed

theorem persisted_records_witness:
  "\<exists>bs. bs \<noteq> [] \<and>
     disk (snd (main untitled_browser [''market''] 1 None)) = Some (document bs) \<and>
     (\<forall>batch \<in> set bs. \<forall>r \<in> set batch.
        url r \<noteq> [] \<and> 1 \<le> page r \<and> \<not> filtered_out [''market''] (title r) (summary r) \<and>
        (\<exists>items item a t.
           query_news_items (page_at untitled_browser (page r)) = Returns items \<and>
           item \<in> set items \<and> query_a item = Returns (Some a) \<and>
           a_text_content a = Returns t \<and> a_href a = Returns (Some (url r)) \<and>
           title r = strip_or_empty t))"
proof -
  from persisted_records [of untitled_browser "[''market'']" 1] obtain bs
    where bs: "disk (snd (main untitled_browser [''market''] 1 None)) =
        (if bs = [] then None else Some (document bs))"
      "\<forall>batch \<in> set bs. \<forall>r \<in> set batch.
        url r \<noteq> [] \<and> 1 \<le> page r \<and> \<not> filtered_out [''market''] (title r) (summary r) \<and>
        (\<exists>items item a t.
           query_news_items (page_at untitled_browser (page r)) = Returns items \<and>
           item \<in> set items \<and> query_a item = Returns (Some a) \<and>
           a_text_content a = Returns t \<and> a_href a = Returns (Some (url r)) \<and>
           title r = strip_or_empty t)"
    by blast
  from bs(1) main_untitled_browser have "bs \<noteq> []"
    by auto
  with bs show ?thesis
    by (intro exI [of _ bs]) simp
qed

text \<open>
  Claim C3 as the specification states it fails: the file of this run holds a record
  whose title is empty.
\<close>

theorem empty_title_counterexample:
  "map_option json_loads (disk (snd (main untitled_browser [''market''] 1 None))) =
     Some (Some (JArr [JArr [JObj [(''title'', JStr []), (''summary'', JStr ''market news''),
       (''url'', JStr ''http://a''), (''page'', JInt 1)]]]))"
  by (simp add: main_untitled_browser json_loads_document batches_json_def news_json_def)

end
